theory Spec2Isabelle
  imports Main "HOL-Library.AList"
begin

section \<open>JavaScript values and the object store\<close>

text \<open>
  The cache of \<^verbatim>\<open>src/index.ts\<close> is generic in the type \<open>T\<close> of the stored values.
  A value is a primitive or a reference to an object of the store.  Numbers are the
  integers (NaN and fractions are not represented).  An object of the store is held
  by its content, a tree of properties: nested objects belong to their parent, so
  the object graphs are the cycle-free, unshared ones.  The store is a list, an
  address is an index, and a new object is appended, so an allocated address is
  never one that is already in use.
\<close>

type_synonym addr = nat

datatype jsval = Undefined | Null | JBool bool | JNum int | JStr string | JRef addr

datatype jsdata =
  DUndefined | DNull | DBool bool | DNum int | DStr string | DObject "(string \<times> jsdata) list"

type_synonym jsobject = "(string \<times> jsdata) list"

fun typeof :: "jsval \<Rightarrow> string" where
  "typeof Undefined = ''undefined''"
| "typeof Null = ''object''"
| "typeof (JBool b) = ''boolean''"
| "typeof (JNum n) = ''number''"
| "typeof (JStr s) = ''string''"
| "typeof (JRef a) = ''object''"

text \<open>\<^verbatim>\<open>v != null\<close>: the loose comparison, false for \<^verbatim>\<open>null\<close> and \<^verbatim>\<open>undefined\<close>.\<close>

fun not_nullish :: "jsval \<Rightarrow> bool" where
  "not_nullish Undefined = False"
| "not_nullish Null = False"
| "not_nullish v = True"

text \<open>The truthiness test of \<^verbatim>\<open>if (v)\<close>.\<close>

fun truthy :: "jsval \<Rightarrow> bool" where
  "truthy Undefined = False"
| "truthy Null = False"
| "truthy (JBool b) = b"
| "truthy (JNum n) = (n \<noteq> 0)"
| "truthy (JStr s) = (s \<noteq> [])"
| "truthy (JRef a) = True"

text \<open>
  Modelled from the spec: the deep-copy operation, which the source takes from the
  external package \<^verbatim>\<open>lodash.clonedeep\<close>.  A primitive is returned as it is; an object
  is copied, with everything below it, into a new object of the store.
\<close>

definition cloneDeep :: "jsval \<Rightarrow> jsobject list \<Rightarrow> jsval \<times> jsobject list" where
  "cloneDeep v h =
     (case v of
        JRef a \<Rightarrow> if a < length h then (JRef (length h), h @ [h ! a]) else (v, h)
      | _ \<Rightarrow> (v, h))"

section \<open>Callbacks, exceptions and the trace\<close>

text \<open>
  A callback handed to the cache is opaque code of the caller.  It is modelled the
  way the tests build it, as a mock: calling it records the call in the trace, and
  it either returns or throws.  An exception is a value of the result; the state
  changes made before it was thrown stay.
\<close>

type_synonym slot_id = nat
type_synonym symbol = nat

datatype callback = Callback (cb_id: nat) (cb_throws: bool)

datatype exn = HandlerError nat | TypeError

datatype event =
    NextCalled symbol nat slot_id
  | CompleteCalled symbol nat
  | CacheHandlerCalled symbol nat
  | OnPresentCalled nat jsval
  | OnAbsentCalled nat

record UnwrapHandlers =
  onPresent :: "callback option"
  onAbsent :: "callback option"

record CacheValueSubscriptionHandlers =
  h_next :: "callback option"
  h_complete :: "callback option"

text \<open>A \<^verbatim>\<open>CacheValue\<close> instance: the descriptor's two fields and the subscriber map.\<close>

record CacheValue =
  current :: jsval
  previous :: jsval
  subscribers :: "(symbol \<times> CacheValueSubscriptionHandlers) list"

text \<open>
  The world: the object store, the \<^verbatim>\<open>CacheValue\<close> instances (a slot is named by its
  index, its identity), the two maps of the \<^verbatim>\<open>CacheIt\<close> instance, the number of
  symbols made so far, the pending \<^verbatim>\<open>setTimeout\<close> callbacks with their deadlines, the
  clock, and the trace of the callbacks called.
\<close>

record world =
  heap :: "jsobject list"
  slots :: "CacheValue list"
  cache :: "(string \<times> slot_id) list"
  cache_subscribers :: "(symbol \<times> callback) list"
  symbols :: nat
  timers :: "(nat \<times> slot_id) list"
  now :: nat
  trace :: "event list"

definition new_world :: world where
  "new_world = \<lparr>heap = [], slots = [], cache = [], cache_subscribers = [],
     symbols = 0, timers = [], now = 0, trace = []\<rparr>"

definition slot_at :: "world \<Rightarrow> slot_id \<Rightarrow> CacheValue option" where
  "slot_at w s = (if s < length (slots w) then Some (slots w ! s) else None)"

definition invoke :: "callback \<Rightarrow> event \<Rightarrow> world \<Rightarrow> (exn + unit) \<times> world" where
  "invoke cb ev w =
     (if cb_throws cb then Inl (HandlerError (cb_id cb)) else Inr (),
      w\<lparr>trace := trace w @ [ev]\<rparr>)"

text \<open>The optional call \<^verbatim>\<open>f?.(...)\<close>.\<close>

definition optional_call ::
  "callback option \<Rightarrow> (nat \<Rightarrow> event) \<Rightarrow> world \<Rightarrow> (exn + unit) \<times> world" where
  "optional_call f ev w =
     (case f of None \<Rightarrow> (Inr (), w) | Some cb \<Rightarrow> invoke cb (ev (cb_id cb)) w)"

text \<open>What the caller does to an object it holds.\<close>

definition heap_alloc :: "jsobject \<Rightarrow> world \<Rightarrow> jsval \<times> world" where
  "heap_alloc obj w = (JRef (length (heap w)), w\<lparr>heap := heap w @ [obj]\<rparr>)"

definition heap_write :: "addr \<Rightarrow> jsobject \<Rightarrow> world \<Rightarrow> world" where
  "heap_write a obj w = w\<lparr>heap := (heap w)[a := obj]\<rparr>"

definition deref :: "world \<Rightarrow> jsval \<Rightarrow> jsobject option" where
  "deref w v =
     (case v of
        JRef a \<Rightarrow> if a < length (heap w) then Some (heap w ! a) else None
      | _ \<Rightarrow> None)"

section \<open>CacheValue\<close>

text \<open>
  The host's \<^verbatim>\<open>setTimeout\<close> (Node, where the package and its tests run) takes the
  delay in milliseconds; a delay below 1 or above \<open>2^31 - 1\<close> is set to 1.
\<close>

definition setTimeout_delay :: "nat \<Rightarrow> nat" where
  "setTimeout_delay d = (if d < 1 \<or> 2147483647 < d then 1 else d)"

text \<open>
  The constructor: both fields undefined, no subscriber, and the timer armed when
  \<^verbatim>\<open>ttl != null\<close>, a TTL of 0 included.
\<close>

definition CacheValue_new :: "nat option \<Rightarrow> world \<Rightarrow> slot_id \<times> world" where
  "CacheValue_new ttl w =
     (let s = length (slots w);
          w1 = w\<lparr>slots := slots w @
                 [\<lparr>current = Undefined, previous = Undefined, subscribers = []\<rparr>]\<rparr>
      in (s, case ttl of
               None \<Rightarrow> w1
             | Some d \<Rightarrow> w1\<lparr>timers := timers w1 @ [(now w1 + setTimeout_delay d, s)]\<rparr>))"

text \<open>
  \<^verbatim>\<open>this.subscribers.forEach\<close> of \<^verbatim>\<open>notifySubscribers\<close>: in insertion order; an
  exception leaves the loop.
\<close>

fun forEach_value ::
  "bool \<Rightarrow> slot_id \<Rightarrow> (symbol \<times> CacheValueSubscriptionHandlers) list \<Rightarrow> world
     \<Rightarrow> (exn + unit) \<times> world" where
  "forEach_value isComplete s [] w = (Inr (), w)"
| "forEach_value isComplete s ((tok, handlers) # rest) w =
     (case (if isComplete
            then optional_call (h_complete handlers) (\<lambda>c. CompleteCalled tok c) w
            else optional_call (h_next handlers) (\<lambda>c. NextCalled tok c s) w) of
        (Inl e, w') \<Rightarrow> (Inl e, w')
      | (Inr u, w') \<Rightarrow> forEach_value isComplete s rest w')"

definition CacheValue_notifySubscribers ::
  "slot_id \<Rightarrow> bool \<Rightarrow> world \<Rightarrow> (exn + unit) \<times> world" where
  "CacheValue_notifySubscribers s isComplete w =
     (case slot_at w s of
        None \<Rightarrow> (Inl TypeError, w)
      | Some cv \<Rightarrow> forEach_value isComplete s (subscribers cv) w)"

definition CacheValue_update :: "slot_id \<Rightarrow> jsval \<Rightarrow> world \<Rightarrow> (exn + unit) \<times> world" where
  "CacheValue_update s v w =
     (case slot_at w s of
        None \<Rightarrow> (Inl TypeError, w)
      | Some cv \<Rightarrow>
          (let (oldValue, h1) =
                 (if typeof (current cv) = ''object'' \<and> not_nullish (current cv)
                  then cloneDeep (current cv) (heap w) else (current cv, heap w));
               (newValue, h2) =
                 (if typeof v = ''object'' \<and> not_nullish v
                  then cloneDeep v h1 else (v, h1))
           in CacheValue_notifySubscribers s False
                (w\<lparr>heap := h2,
                   slots := (slots w)[s := cv\<lparr>previous := oldValue, current := newValue\<rparr>]\<rparr>)))"

definition CacheValue_unwrapCurrent ::
  "slot_id \<Rightarrow> UnwrapHandlers option \<Rightarrow> world \<Rightarrow> (exn + jsval) \<times> world" where
  "CacheValue_unwrapCurrent s handlers w =
     (case slot_at w s of
        None \<Rightarrow> (Inl TypeError, w)
      | Some cv \<Rightarrow>
          (case handlers of
             Some hs \<Rightarrow>
               (case (if truthy (current cv)
                      then optional_call (onPresent hs) (\<lambda>c. OnPresentCalled c (current cv)) w
                      else optional_call (onAbsent hs) (\<lambda>c. OnAbsentCalled c) w) of
                  (Inl e, w') \<Rightarrow> (Inl e, w')
                | (Inr u, w') \<Rightarrow> (Inr Undefined, w'))
           | None \<Rightarrow> (Inr (current cv), w)))"

definition CacheValue_unwrapPrevious ::
  "slot_id \<Rightarrow> UnwrapHandlers option \<Rightarrow> world \<Rightarrow> (exn + jsval) \<times> world" where
  "CacheValue_unwrapPrevious s handlers w =
     (case slot_at w s of
        None \<Rightarrow> (Inl TypeError, w)
      | Some cv \<Rightarrow>
          (case handlers of
             Some hs \<Rightarrow>
               (case (if truthy (previous cv)
                      then optional_call (onPresent hs) (\<lambda>c. OnPresentCalled c (previous cv)) w
                      else optional_call (onAbsent hs) (\<lambda>c. OnAbsentCalled c) w) of
                  (Inl e, w') \<Rightarrow> (Inl e, w')
                | (Inr u, w') \<Rightarrow> (Inr Undefined, w'))
           | None \<Rightarrow> (Inr (previous cv), w)))"

definition CacheValue_clear :: "slot_id \<Rightarrow> world \<Rightarrow> (exn + unit) \<times> world" where
  "CacheValue_clear s w =
     (case slot_at w s of
        None \<Rightarrow> (Inl TypeError, w)
      | Some cv \<Rightarrow>
          CacheValue_notifySubscribers s False
            (w\<lparr>slots := (slots w)[s := cv\<lparr>current := Undefined, previous := Undefined\<rparr>]\<rparr>))"

text \<open>
  The subscription object: its \<^verbatim>\<open>unsubscribe\<close> closure holds the slot, the symbol and
  the handlers.
\<close>

record CacheValueSubscription =
  vs_slot :: slot_id
  vs_symbol :: symbol
  vs_handlers :: CacheValueSubscriptionHandlers

definition CacheValue_subscribe ::
  "slot_id \<Rightarrow> CacheValueSubscriptionHandlers \<Rightarrow> world
     \<Rightarrow> (exn + CacheValueSubscription) \<times> world" where
  "CacheValue_subscribe s handlers w =
     (case slot_at w s of
        None \<Rightarrow> (Inl TypeError, w)
      | Some cv \<Rightarrow>
          (let tok = symbols w
           in (Inr \<lparr>vs_slot = s, vs_symbol = tok, vs_handlers = handlers\<rparr>,
               w\<lparr>symbols := Suc tok,
                 slots := (slots w)
                   [s := cv\<lparr>subscribers := AList.update tok handlers (subscribers cv)\<rparr>]\<rparr>)))"

definition CacheValue_unsubscribe ::
  "CacheValueSubscription \<Rightarrow> world \<Rightarrow> (exn + unit) \<times> world" where
  "CacheValue_unsubscribe sub w =
     (case optional_call (h_complete (vs_handlers sub))
             (\<lambda>c. CompleteCalled (vs_symbol sub) c) w of
        (Inl e, w') \<Rightarrow> (Inl e, w')
      | (Inr u, w') \<Rightarrow>
          (case slot_at w' (vs_slot sub) of
             None \<Rightarrow> (Inl TypeError, w')
           | Some cv \<Rightarrow>
               (Inr (),
                w'\<lparr>slots := (slots w')
                   [vs_slot sub :=
                      cv\<lparr>subscribers := AList.delete (vs_symbol sub) (subscribers cv)\<rparr>]\<rparr>)))"

definition CacheValue_unsubscribeAll :: "slot_id \<Rightarrow> world \<Rightarrow> (exn + unit) \<times> world" where
  "CacheValue_unsubscribeAll s w =
     (case CacheValue_notifySubscribers s True w of
        (Inl e, w') \<Rightarrow> (Inl e, w')
      | (Inr u, w') \<Rightarrow>
          (case slot_at w' s of
             None \<Rightarrow> (Inl TypeError, w')
           | Some cv \<Rightarrow> (Inr (), w'\<lparr>slots := (slots w')[s := cv\<lparr>subscribers := []\<rparr>]\<rparr>)))"

section \<open>CacheIt\<close>

fun forEach_cache :: "(symbol \<times> callback) list \<Rightarrow> world \<Rightarrow> (exn + unit) \<times> world" where
  "forEach_cache [] w = (Inr (), w)"
| "forEach_cache ((tok, handler) # rest) w =
     (case invoke handler (CacheHandlerCalled tok (cb_id handler)) w of
        (Inl e, w') \<Rightarrow> (Inl e, w')
      | (Inr u, w') \<Rightarrow> forEach_cache rest w')"

definition CacheIt_notifySubscribers :: "world \<Rightarrow> (exn + unit) \<times> world" where
  "CacheIt_notifySubscribers w = forEach_cache (cache_subscribers w) w"

definition CacheIt_set ::
  "string \<Rightarrow> jsval \<Rightarrow> nat option \<Rightarrow> world \<Rightarrow> (exn + slot_id) \<times> world" where
  "CacheIt_set key v ttl w =
     (let (cacheValue, w1) = CacheValue_new ttl w
      in case CacheValue_update cacheValue v w1 of
           (Inl e, w2) \<Rightarrow> (Inl e, w2)
         | (Inr u, w2) \<Rightarrow>
             (case CacheIt_notifySubscribers
                     (w2\<lparr>cache := AList.update key cacheValue (cache w2)\<rparr>) of
                (Inl e, w3) \<Rightarrow> (Inl e, w3)
              | (Inr u', w3) \<Rightarrow> (Inr cacheValue, w3)))"

definition CacheIt_get :: "string \<Rightarrow> world \<Rightarrow> slot_id option" where
  "CacheIt_get key w = map_of (cache w) key"

definition CacheIt_delete :: "string \<Rightarrow> world \<Rightarrow> (exn + bool) \<times> world" where
  "CacheIt_delete key w =
     (let isDeleted = (map_of (cache w) key \<noteq> None);
          w1 = w\<lparr>cache := AList.delete key (cache w)\<rparr>
      in if isDeleted
         then (case CacheIt_notifySubscribers w1 of
                 (Inl e, w2) \<Rightarrow> (Inl e, w2)
               | (Inr u, w2) \<Rightarrow> (Inr isDeleted, w2))
         else (Inr isDeleted, w1))"

definition CacheIt_clear :: "world \<Rightarrow> (exn + unit) \<times> world" where
  "CacheIt_clear w = CacheIt_notifySubscribers (w\<lparr>cache := []\<rparr>)"

definition CacheIt_size :: "world \<Rightarrow> nat" where
  "CacheIt_size w = length (cache w)"

definition CacheIt_has :: "string \<Rightarrow> world \<Rightarrow> bool" where
  "CacheIt_has key w = (map_of (cache w) key \<noteq> None)"

text \<open>The cache subscription: its \<^verbatim>\<open>unsubscribe\<close> closure holds the symbol.\<close>

datatype CacheSubscription = CacheSubscription (cs_symbol: symbol)

definition CacheIt_subscribe :: "callback \<Rightarrow> world \<Rightarrow> CacheSubscription \<times> world" where
  "CacheIt_subscribe handler w =
     (let tok = symbols w
      in (CacheSubscription tok,
          w\<lparr>symbols := Suc tok,
            cache_subscribers := AList.update tok handler (cache_subscribers w)\<rparr>))"

definition CacheIt_unsubscribe :: "CacheSubscription \<Rightarrow> world \<Rightarrow> world" where
  "CacheIt_unsubscribe sub w =
     w\<lparr>cache_subscribers := AList.delete (cs_symbol sub) (cache_subscribers w)\<rparr>"

definition CacheIt_unsubscribeAll :: "world \<Rightarrow> world" where
  "CacheIt_unsubscribeAll w = w\<lparr>cache_subscribers := []\<rparr>"

section \<open>Time\<close>

text \<open>
  The callback armed by the constructor is \<^verbatim>\<open>() => { this.update(undefined) }\<close>.  When
  time passes, the timers that are due leave the pending list and run, the earliest
  deadline first; an exception of a handler goes to the host.
\<close>

definition fire :: "nat \<times> slot_id \<Rightarrow> world \<Rightarrow> world" where
  "fire t w = snd (CacheValue_update (snd t) Undefined w)"

definition elapse :: "nat \<Rightarrow> world \<Rightarrow> world" where
  "elapse d w =
     (let t = now w + d;
          due = filter (\<lambda>x. fst x \<le> t) (timers w);
          pending = filter (\<lambda>x. \<not> fst x \<le> t) (timers w)
      in fold fire (sort_key fst due) (w\<lparr>now := t, timers := pending\<rparr>))"

section \<open>Vocabulary of the properties\<close>

text \<open>
  What a notification pass over a subscriber map does, said with the list functions of
  the library: the pass reaches the entries before the first one whose callback
  throws, and that entry; it calls the callback of each entry reached that has one.
\<close>

definition handler_of :: "bool \<Rightarrow> CacheValueSubscriptionHandlers \<Rightarrow> callback option" where
  "handler_of isComplete h = (if isComplete then h_complete h else h_next h)"

definition throwing :: "bool \<Rightarrow> symbol \<times> CacheValueSubscriptionHandlers \<Rightarrow> bool" where
  "throwing isComplete p =
     (case handler_of isComplete (snd p) of None \<Rightarrow> False | Some cb \<Rightarrow> cb_throws cb)"

definition event_of ::
  "bool \<Rightarrow> slot_id \<Rightarrow> symbol \<times> CacheValueSubscriptionHandlers \<Rightarrow> event list" where
  "event_of isComplete s p =
     (case handler_of isComplete (snd p) of
        None \<Rightarrow> []
      | Some cb \<Rightarrow>
          [if isComplete then CompleteCalled (fst p) (cb_id cb)
           else NextCalled (fst p) (cb_id cb) s])"

definition reached ::
  "bool \<Rightarrow> (symbol \<times> CacheValueSubscriptionHandlers) list
     \<Rightarrow> (symbol \<times> CacheValueSubscriptionHandlers) list" where
  "reached isComplete subs =
     takeWhile (\<lambda>p. \<not> throwing isComplete p) subs
       @ take 1 (dropWhile (\<lambda>p. \<not> throwing isComplete p) subs)"

definition pass_events ::
  "bool \<Rightarrow> slot_id \<Rightarrow> (symbol \<times> CacheValueSubscriptionHandlers) list \<Rightarrow> event list" where
  "pass_events isComplete s subs = concat (map (event_of isComplete s) (reached isComplete subs))"

definition pass_result ::
  "bool \<Rightarrow> (symbol \<times> CacheValueSubscriptionHandlers) list \<Rightarrow> exn + unit" where
  "pass_result isComplete subs =
     (case dropWhile (\<lambda>p. \<not> throwing isComplete p) subs of
        [] \<Rightarrow> Inr ()
      | p # rest \<Rightarrow>
          (case handler_of isComplete (snd p) of
             None \<Rightarrow> Inr ()
           | Some cb \<Rightarrow> Inl (HandlerError (cb_id cb))))"

definition cache_event_of :: "symbol \<times> callback \<Rightarrow> event" where
  "cache_event_of p = CacheHandlerCalled (fst p) (cb_id (snd p))"

definition cache_reached :: "(symbol \<times> callback) list \<Rightarrow> (symbol \<times> callback) list" where
  "cache_reached subs =
     takeWhile (\<lambda>p. \<not> cb_throws (snd p)) subs
       @ take 1 (dropWhile (\<lambda>p. \<not> cb_throws (snd p)) subs)"

definition cache_pass_result :: "(symbol \<times> callback) list \<Rightarrow> exn + unit" where
  "cache_pass_result subs =
     (case dropWhile (\<lambda>p. \<not> cb_throws (snd p)) subs of
        [] \<Rightarrow> Inr ()
      | p # rest \<Rightarrow> Inl (HandlerError (cb_id (snd p))))"

fun is_notification :: "event \<Rightarrow> bool" where
  "is_notification (NextCalled tok c s) = True"
| "is_notification (CompleteCalled tok c) = True"
| "is_notification (CacheHandlerCalled tok c) = True"
| "is_notification (OnPresentCalled c v) = False"
| "is_notification (OnAbsentCalled c) = False"

text \<open>
  The value an update stores for \<open>v\<close> and the store it leaves: the ternary of
  \<^verbatim>\<open>update\<close>, \<^verbatim>\<open>typeof v === 'object' && v != null ? cloneDeep(v) : v\<close>.
\<close>

definition stored :: "jsval \<Rightarrow> jsobject list \<Rightarrow> jsval \<times> jsobject list" where
  "stored v h = (if typeof v = ''object'' \<and> not_nullish v then cloneDeep v h else (v, h))"

text \<open>
  A value of a world refers to an object of its store, if it is a reference.  Two
  values are equal, in the sense of the tests' \<^verbatim>\<open>toEqual\<close>, when they are the same
  primitive or refer to objects of the same content.
\<close>

definition is_value :: "world \<Rightarrow> jsval \<Rightarrow> bool" where
  "is_value w v = (case v of JRef a \<Rightarrow> a < length (heap w) | _ \<Rightarrow> True)"

definition js_equal :: "world \<Rightarrow> jsval \<Rightarrow> world \<Rightarrow> jsval \<Rightarrow> bool" where
  "js_equal w v w' v' =
     (case v of
        JRef a \<Rightarrow> (case v' of JRef a' \<Rightarrow> deref w v = deref w' v' | _ \<Rightarrow> False)
      | _ \<Rightarrow> v' = v)"

text \<open>
  The mutating calls of the cache, run one after the other; a call is mutating when it
  is a \<^verbatim>\<open>set\<close>, a \<^verbatim>\<open>clear\<close>, or a \<^verbatim>\<open>delete\<close> of a key that is present.
\<close>

datatype mutation = Set string jsval "nat option" | Delete string | Clear

fun apply_mutation :: "mutation \<Rightarrow> world \<Rightarrow> world" where
  "apply_mutation (Set key v ttl) w = snd (CacheIt_set key v ttl w)"
| "apply_mutation (Delete key) w = snd (CacheIt_delete key w)"
| "apply_mutation Clear w = snd (CacheIt_clear w)"

fun mutating :: "mutation \<Rightarrow> world \<Rightarrow> bool" where
  "mutating (Set key v ttl) w = True"
| "mutating (Delete key) w = CacheIt_has key w"
| "mutating Clear w = True"

fun run_mutations :: "mutation list \<Rightarrow> world \<Rightarrow> world" where
  "run_mutations [] w = w"
| "run_mutations (m # ms) w = run_mutations ms (apply_mutation m w)"

fun mutating_calls :: "mutation list \<Rightarrow> world \<Rightarrow> nat" where
  "mutating_calls [] w = 0"
| "mutating_calls (m # ms) w =
     (if mutating m w then 1 else 0) + mutating_calls ms (apply_mutation m w)"

text \<open>
  The events of the trace that are calls of the \<^verbatim>\<open>next\<close> handlers of one slot, and
  those that are calls of handlers of slots at all.
\<close>

fun on_slot :: "slot_id \<Rightarrow> event \<Rightarrow> bool" where
  "on_slot s (NextCalled tok c s') = (s' = s)"
| "on_slot s e = False"

fun is_slot_event :: "event \<Rightarrow> bool" where
  "is_slot_event (NextCalled tok c s) = True"
| "is_slot_event (CompleteCalled tok c) = True"
| "is_slot_event e = False"


text \<open>
  The calls a caller can make, one after the other: the methods of the cache and of
  its slots (for \<^verbatim>\<open>unsubscribe\<close>, the subscription object it is called on), what it does
  to the objects it holds, and the passing of time.  A run keeps the world each call
  leaves, whether the call returned or threw.
\<close>

datatype call =
    Cache_set string jsval "nat option"
  | Cache_delete string
  | Cache_clear
  | Cache_subscribe callback
  | Cache_unsubscribe CacheSubscription
  | Cache_unsubscribeAll
  | Value_update slot_id jsval
  | Value_clear slot_id
  | Value_subscribe slot_id CacheValueSubscriptionHandlers
  | Value_unsubscribe CacheValueSubscription
  | Value_unsubscribeAll slot_id
  | Value_unwrapCurrent slot_id "UnwrapHandlers option"
  | Value_unwrapPrevious slot_id "UnwrapHandlers option"
  | Object_new jsobject
  | Object_write addr jsobject
  | Elapse nat

fun exec :: "call \<Rightarrow> world \<Rightarrow> world" where
  "exec (Cache_set key v ttl) w = snd (CacheIt_set key v ttl w)"
| "exec (Cache_delete key) w = snd (CacheIt_delete key w)"
| "exec Cache_clear w = snd (CacheIt_clear w)"
| "exec (Cache_subscribe handler) w = snd (CacheIt_subscribe handler w)"
| "exec (Cache_unsubscribe sub) w = CacheIt_unsubscribe sub w"
| "exec Cache_unsubscribeAll w = CacheIt_unsubscribeAll w"
| "exec (Value_update s v) w = snd (CacheValue_update s v w)"
| "exec (Value_clear s) w = snd (CacheValue_clear s w)"
| "exec (Value_subscribe s handlers) w = snd (CacheValue_subscribe s handlers w)"
| "exec (Value_unsubscribe sub) w = snd (CacheValue_unsubscribe sub w)"
| "exec (Value_unsubscribeAll s) w = snd (CacheValue_unsubscribeAll s w)"
| "exec (Value_unwrapCurrent s handlers) w = snd (CacheValue_unwrapCurrent s handlers w)"
| "exec (Value_unwrapPrevious s handlers) w = snd (CacheValue_unwrapPrevious s handlers w)"
| "exec (Object_new obj) w = snd (heap_alloc obj w)"
| "exec (Object_write a obj) w = heap_write a obj w"
| "exec (Elapse d) w = elapse d w"

definition run :: "call list \<Rightarrow> world \<Rightarrow> world" where
  "run cs w = fold exec cs w"

text \<open>
  The symbols registered in a world, those of the cache first, then those of each
  slot.  In a world made by the calls above every registered symbol was made by
  \<^verbatim>\<open>Symbol()\<close> before, and none is registered twice.  An event of the trace is for a
  symbol when it is the call of a handler registered under it.
\<close>

definition slot_tokens :: "CacheValue \<Rightarrow> symbol list" where
  "slot_tokens cv = map fst (subscribers cv)"

definition registered :: "world \<Rightarrow> symbol list" where
  "registered w = map fst (cache_subscribers w) @ concat (map slot_tokens (slots w))"

definition unique_tokens :: "world \<Rightarrow> bool" where
  "unique_tokens w \<longleftrightarrow> distinct (registered w) \<and> list_all (\<lambda>t. t < symbols w) (registered w)"

fun event_token :: "event \<Rightarrow> symbol option" where
  "event_token (NextCalled tok c s) = Some tok"
| "event_token (CompleteCalled tok c) = Some tok"
| "event_token (CacheHandlerCalled tok c) = Some tok"
| "event_token (OnPresentCalled c v) = None"
| "event_token (OnAbsentCalled c) = None"

definition for_token :: "symbol \<Rightarrow> event \<Rightarrow> bool" where
  "for_token tok e = (event_token e = Some tok)"

fun unsubscribes :: "symbol \<Rightarrow> call \<Rightarrow> bool" where
  "unsubscribes tok (Value_unsubscribe sub) = (vs_symbol sub = tok)"
| "unsubscribes tok c = False"

section \<open>Example worlds\<close>

definition both_handlers :: UnwrapHandlers where
  "both_handlers = \<lparr>onPresent = Some (Callback 1 False), onAbsent = Some (Callback 2 False)\<rparr>"

definition zero_world :: world where
  "zero_world = snd (CacheIt_set ''k'' (JNum 0) None new_world)"

definition empty_string_world :: world where
  "empty_string_world =
     snd (CacheValue_update 0 (JNum 1) (snd (CacheIt_set ''k'' (JStr []) None new_world)))"

definition object_world :: world where
  "object_world =
     snd (CacheIt_set ''key'' (JRef 0) None
            (snd (heap_alloc [(''test'', DStr ''test'')] new_world)))"

definition one_world :: world where
  "one_world = snd (CacheIt_set ''k'' (JNum 1) None new_world)"


definition listener :: "nat \<Rightarrow> CacheValueSubscriptionHandlers" where
  "listener c = \<lparr>h_next = Some (Callback c False), h_complete = None\<rparr>"

definition thrower :: "nat \<Rightarrow> CacheValueSubscriptionHandlers" where
  "thrower c = \<lparr>h_next = Some (Callback c True), h_complete = None\<rparr>"

definition throwing_world :: world where
  "throwing_world =
     snd (CacheIt_subscribe (Callback 6 False)
       (snd (CacheIt_subscribe (Callback 5 True)
         (snd (CacheIt_subscribe (Callback 4 False)
           (snd (CacheValue_subscribe 0 (listener 3)
             (snd (CacheValue_subscribe 0 (thrower 2)
               (snd (CacheValue_subscribe 0 (listener 1) one_world)))))))))))"

definition watched_world :: world where
  "watched_world =
     snd (CacheIt_subscribe (Callback 2 False)
            (snd (CacheIt_subscribe (Callback 1 False) new_world)))"

definition watched_cache :: world where
  "watched_cache = snd (CacheIt_set ''a'' (JNum 1) None watched_world)"



definition completing :: CacheValueSubscriptionHandlers where
  "completing = \<lparr>h_next = Some (Callback 1 False), h_complete = Some (Callback 7 False)\<rparr>"

definition subscribed_world :: world where
  "subscribed_world =
     snd (CacheIt_subscribe (Callback 3 False)
            (snd (CacheValue_subscribe 0 completing one_world)))"

definition the_subscription :: CacheValueSubscription where
  "the_subscription = \<lparr>vs_slot = 0, vs_symbol = 0, vs_handlers = completing\<rparr>"

definition failing_completion :: CacheValueSubscriptionHandlers where
  "failing_completion = \<lparr>h_next = Some (Callback 1 False), h_complete = Some (Callback 8 True)\<rparr>"

definition failing_world :: world where
  "failing_world = snd (CacheValue_subscribe 0 failing_completion one_world)"

definition failing_subscription :: CacheValueSubscription where
  "failing_subscription = \<lparr>vs_slot = 0, vs_symbol = 0, vs_handlers = failing_completion\<rparr>"

definition replaced_world :: world where
  "replaced_world =
     run [Value_subscribe 1 (listener 2)]
       (snd (CacheIt_set ''k'' (JNum 2) (Some 5)
          (run [Value_subscribe 0 (listener 1)]
             (snd (CacheIt_set ''k'' (JNum 1) None new_world)))))"

section \<open>What each operation does to the world\<close>

lemmas eval_defs =
  new_world_def heap_alloc_def heap_write_def deref_def slot_at_def cloneDeep_def
  invoke_def optional_call_def setTimeout_delay_def CacheValue_new_def
  CacheValue_notifySubscribers_def
  CacheValue_update_def CacheValue_clear_def CacheValue_unwrapCurrent_def
  CacheValue_unwrapPrevious_def CacheValue_subscribe_def CacheValue_unsubscribe_def
  CacheValue_unsubscribeAll_def CacheIt_notifySubscribers_def CacheIt_set_def
  CacheIt_get_def CacheIt_delete_def CacheIt_clear_def CacheIt_subscribe_def
  CacheIt_unsubscribe_def CacheIt_unsubscribeAll_def fire_def elapse_def

lemma optional_call_eq:
  "optional_call f ev w =
     (case f of None \<Rightarrow> Inr () | Some cb \<Rightarrow> if cb_throws cb then Inl (HandlerError (cb_id cb)) else Inr (),
      w\<lparr>trace := trace w @ (case f of None \<Rightarrow> [] | Some cb \<Rightarrow> [ev (cb_id cb)])\<rparr>)"
  by (simp add: optional_call_def invoke_def split: option.split)

lemma forEach_value_eq:
  "forEach_value c s subs w =
     (pass_result c subs, w\<lparr>trace := trace w @ pass_events c s subs\<rparr>)"
proof (induction subs arbitrary: w)
  case Nil
  show ?case by (simp add: pass_result_def pass_events_def reached_def)
next
  case (Cons p subs)
  obtain tok h where p: "p = (tok, h)" by (cases p)
  show ?case
  proof (cases "handler_of c h")
    case None
    then show ?thesis using Cons.IH p
      by (auto simp: optional_call_eq handler_of_def pass_result_def pass_events_def
            reached_def throwing_def event_of_def split: if_splits)
  next
    case (Some cb)
    then show ?thesis using Cons.IH p
      by (auto simp: optional_call_eq handler_of_def pass_result_def pass_events_def
            reached_def throwing_def event_of_def split: if_splits)
  qed
qed

lemma forEach_cache_eq:
  "forEach_cache subs w =
     (cache_pass_result subs,
      w\<lparr>trace := trace w @ map cache_event_of (cache_reached subs)\<rparr>)"
proof (induction subs arbitrary: w)
  case Nil
  show ?case by (simp add: cache_pass_result_def cache_reached_def)
next
  case (Cons p subs)
  obtain tok h where p: "p = (tok, h)" by (cases p)
  show ?case using Cons.IH p
    by (auto simp: invoke_def cache_pass_result_def cache_reached_def cache_event_of_def)
qed

lemma notify_value_eq:
  "s < length (slots w) \<Longrightarrow>
   CacheValue_notifySubscribers s c w =
     (pass_result c (subscribers (slots w ! s)),
      w\<lparr>trace := trace w @ pass_events c s (subscribers (slots w ! s))\<rparr>)"
  by (simp add: CacheValue_notifySubscribers_def slot_at_def forEach_value_eq)

lemma notify_value_none:
  "\<not> s < length (slots w) \<Longrightarrow> CacheValue_notifySubscribers s c w = (Inl TypeError, w)"
  by (simp add: CacheValue_notifySubscribers_def slot_at_def)

lemma update_eq:
  "s < length (slots w) \<Longrightarrow>
   CacheValue_update s v w =
     (let cv = slots w ! s;
          old = stored (current cv) (heap w);
          new = stored v (snd old)
      in (pass_result False (subscribers cv),
          w\<lparr>heap := snd new,
            slots := (slots w)[s := cv\<lparr>previous := fst old, current := fst new\<rparr>],
            trace := trace w @ pass_events False s (subscribers cv)\<rparr>))"
  by (simp add: CacheValue_update_def slot_at_def stored_def notify_value_eq Let_def
        split: prod.split)

lemma update_none:
  "\<not> s < length (slots w) \<Longrightarrow> CacheValue_update s v w = (Inl TypeError, w)"
  by (simp add: CacheValue_update_def slot_at_def)

lemma clear_eq:
  "s < length (slots w) \<Longrightarrow>
   CacheValue_clear s w =
     (let cv = slots w ! s
      in (pass_result False (subscribers cv),
          w\<lparr>slots := (slots w)[s := cv\<lparr>current := Undefined, previous := Undefined\<rparr>],
            trace := trace w @ pass_events False s (subscribers cv)\<rparr>))"
  by (simp add: CacheValue_clear_def slot_at_def notify_value_eq Let_def)

subsection \<open>Values stored by an update\<close>



lemma stored_cases:
  "stored v h = (case v of JRef a \<Rightarrow> if a < length h then (JRef (length h), h @ [h ! a]) else (v, h) | _ \<Rightarrow> (v, h))"
  by (cases v) (simp_all add: stored_def cloneDeep_def)











subsection \<open>Notification passes\<close>


lemma reached_split:
  "\<forall>q\<in>set pre. \<not> throwing c q \<Longrightarrow> throwing c p \<Longrightarrow> reached c (pre @ p # post) = pre @ [p]"
  by (simp add: reached_def)

lemma pass_result_all:
  "\<forall>q\<in>set subs. \<not> throwing c q \<Longrightarrow> pass_result c subs = Inr ()"
  by (simp add: pass_result_def dropWhile_eq_Nil_conv[THEN iffD2])

lemma pass_result_split:
  "\<forall>q\<in>set pre. \<not> throwing c q \<Longrightarrow> handler_of c (snd p) = Some cb \<Longrightarrow> cb_throws cb \<Longrightarrow>
   pass_result c (pre @ p # post) = Inl (HandlerError (cb_id cb))"
  by (simp add: pass_result_def throwing_def)

lemma cache_reached_all:
  "\<forall>q\<in>set subs. \<not> cb_throws (snd q) \<Longrightarrow> cache_reached subs = subs"
  by (simp add: cache_reached_def takeWhile_eq_all_conv[THEN iffD2] dropWhile_eq_Nil_conv[THEN iffD2])

lemma cache_reached_split:
  "\<forall>q\<in>set pre. \<not> cb_throws (snd q) \<Longrightarrow> cb_throws (snd p) \<Longrightarrow>
   cache_reached (pre @ p # post) = pre @ [p]"
  by (simp add: cache_reached_def)

lemma cache_pass_result_all:
  "\<forall>q\<in>set subs. \<not> cb_throws (snd q) \<Longrightarrow> cache_pass_result subs = Inr ()"
  by (simp add: cache_pass_result_def dropWhile_eq_Nil_conv[THEN iffD2])

lemma cache_pass_result_split:
  "\<forall>q\<in>set pre. \<not> cb_throws (snd q) \<Longrightarrow> cb_throws (snd p) \<Longrightarrow>
   cache_pass_result (pre @ p # post) = Inl (HandlerError (cb_id (snd p)))"
  by (simp add: cache_pass_result_def)

lemma notify_cache_eq:
  "CacheIt_notifySubscribers w =
     (cache_pass_result (cache_subscribers w),
      w\<lparr>trace := trace w @ map cache_event_of (cache_reached (cache_subscribers w))\<rparr>)"
  by (simp add: CacheIt_notifySubscribers_def forEach_cache_eq)

subsection \<open>The operations of the cache\<close>

lemma set_eq:
  "CacheIt_set key v ttl w =
     (case cache_pass_result (cache_subscribers w) of
        Inl e \<Rightarrow> Inl e
      | Inr u \<Rightarrow> Inr (length (slots w)),
      w\<lparr>heap := snd (stored v (heap w)),
        slots := slots w @
          [\<lparr>current = fst (stored v (heap w)), previous = Undefined, subscribers = []\<rparr>],
        cache := AList.update key (length (slots w)) (cache w),
        timers := timers w @
          (case ttl of None \<Rightarrow> [] | Some d \<Rightarrow> [(now w + setTimeout_delay d, length (slots w))]),
        trace := trace w @ map cache_event_of (cache_reached (cache_subscribers w))\<rparr>)"
  by (cases ttl)
    (simp_all add: CacheIt_set_def CacheValue_new_def Let_def update_eq notify_cache_eq
       stored_cases pass_result_def pass_events_def reached_def
       split: sum.split jsval.split)

lemma delete_eq:
  "CacheIt_delete key w =
     (if map_of (cache w) key \<noteq> None
      then (case cache_pass_result (cache_subscribers w) of
              Inl e \<Rightarrow> Inl e
            | Inr u \<Rightarrow> Inr True,
            w\<lparr>cache := AList.delete key (cache w),
              trace := trace w @ map cache_event_of (cache_reached (cache_subscribers w))\<rparr>)
      else (Inr False, w))"
proof (cases "map_of (cache w) key")
  case None
  then have "key \<notin> fst ` set (cache w)" by (simp add: map_of_eq_None_iff)
  then have "AList.delete key (cache w) = cache w" by (rule delete_id)
  with None show ?thesis by (simp add: CacheIt_delete_def)
next
  case (Some s)
  then show ?thesis
    by (simp add: CacheIt_delete_def notify_cache_eq split: sum.split)
qed

lemma cache_clear_eq:
  "CacheIt_clear w =
     (cache_pass_result (cache_subscribers w),
      w\<lparr>cache := [],
        trace := trace w @ map cache_event_of (cache_reached (cache_subscribers w))\<rparr>)"
  by (simp add: CacheIt_clear_def notify_cache_eq)

lemma apply_mutation_subscribers:
  "cache_subscribers (apply_mutation m w) = cache_subscribers w"
  by (cases m) (simp_all add: set_eq delete_eq cache_clear_eq)

lemma apply_mutation_trace:
  "trace (apply_mutation m w) =
     trace w @ (if mutating m w
                then map cache_event_of (cache_reached (cache_subscribers w)) else [])"
  by (cases m) (simp_all add: set_eq delete_eq cache_clear_eq CacheIt_has_def)

lemma run_mutations_trace:
  "trace (run_mutations ms w) =
     trace w @ concat (replicate (mutating_calls ms w)
                         (map cache_event_of (cache_reached (cache_subscribers w))))"
proof (induction ms arbitrary: w)
  case Nil
  show ?case by simp
next
  case (Cons m ms)
  have sub: "cache_subscribers (apply_mutation m w) = cache_subscribers w"
    by (rule apply_mutation_subscribers)
  have "trace (run_mutations ms (apply_mutation m w)) =
          trace (apply_mutation m w) @
            concat (replicate (mutating_calls ms (apply_mutation m w))
                      (map cache_event_of (cache_reached (cache_subscribers w))))"
    using Cons.IH [of "apply_mutation m w"] sub by simp
  then show ?case
    using apply_mutation_trace [of m w] by simp
qed

subsection \<open>Timers\<close>

lemma fire_eq:
  "s < length (slots u) \<Longrightarrow>
   fire (dl, s) u =
     u\<lparr>heap := snd (stored (current (slots u ! s)) (heap u)),
       slots := (slots u)[s := (slots u ! s)
                   \<lparr>previous := fst (stored (current (slots u ! s)) (heap u)),
                    current := Undefined\<rparr>],
       trace := trace u @ pass_events False s (subscribers (slots u ! s))\<rparr>"
  by (simp add: fire_def update_eq Let_def stored_def)

lemma fire_none: "\<not> s < length (slots u) \<Longrightarrow> fire (dl, s) u = u"
  by (simp add: fire_def update_none)


lemma fire_frame:
  "timers (fire t u) = timers u \<and> now (fire t u) = now u \<and> cache (fire t u) = cache u
   \<and> cache_subscribers (fire t u) = cache_subscribers u \<and> symbols (fire t u) = symbols u
   \<and> length (slots (fire t u)) = length (slots u)
   \<and> map subscribers (slots (fire t u)) = map subscribers (slots u)"
proof (cases t)
  case (Pair dl s)
  show ?thesis
  proof (cases "s < length (slots u)")
    case True
    then show ?thesis using Pair
      by (simp add: fire_eq map_update list_update_same_conv)
  next
    case False
    then show ?thesis using Pair by (simp add: fire_none)
  qed
qed






lemma fold_fire_frame:
  "timers (fold fire ts u) = timers u \<and> now (fold fire ts u) = now u
   \<and> cache (fold fire ts u) = cache u
   \<and> cache_subscribers (fold fire ts u) = cache_subscribers u
   \<and> symbols (fold fire ts u) = symbols u
   \<and> length (slots (fold fire ts u)) = length (slots u)
   \<and> map subscribers (slots (fold fire ts u)) = map subscribers (slots u)"
proof (induction ts arbitrary: u)
  case Nil
  show ?case by simp
next
  case (Cons t ts)
  show ?case using Cons.IH [of "fire t u"] fire_frame [of t u] by simp
qed



lemma elapse_frame:
  "timers (elapse d u) = filter (\<lambda>x. \<not> fst x \<le> now u + d) (timers u)
   \<and> now (elapse d u) = now u + d
   \<and> cache (elapse d u) = cache u
   \<and> cache_subscribers (elapse d u) = cache_subscribers u
   \<and> symbols (elapse d u) = symbols u
   \<and> length (slots (elapse d u)) = length (slots u)
   \<and> map subscribers (slots (elapse d u)) = map subscribers (slots u)"
  using fold_fire_frame [of "sort_key fst (filter (\<lambda>x. fst x \<le> now u + d) (timers u))"
      "u\<lparr>now := now u + d, timers := filter (\<lambda>x. \<not> fst x \<le> now u + d) (timers u)\<rparr>"]
  by (simp add: elapse_def Let_def)


lemma js_equal_stored_ext:
  "is_value u c \<Longrightarrow> heap u' = snd (stored c (heap u @ e1)) @ e2 \<Longrightarrow>
   js_equal u c u' (fst (stored c (heap u @ e1)))"
  by (cases c) (auto simp: is_value_def js_equal_def deref_def stored_cases nth_append)





lemma subscribe_eq:
  "s < length (slots w) \<Longrightarrow>
   CacheValue_subscribe s h w =
     (Inr \<lparr>vs_slot = s, vs_symbol = symbols w, vs_handlers = h\<rparr>,
      w\<lparr>symbols := Suc (symbols w),
        slots := (slots w)[s := (slots w ! s)
                    \<lparr>subscribers := AList.update (symbols w) h (subscribers (slots w ! s))\<rparr>]\<rparr>)"
  by (simp add: CacheValue_subscribe_def slot_at_def Let_def)




lemma js_equal_stored:
  "is_value w v \<Longrightarrow> heap w' = snd (stored v (heap w)) \<Longrightarrow>
   js_equal w v w' (fst (stored v (heap w)))"
  using js_equal_stored_ext [of w v w' "[]" "[]"] by simp





lemma cache_events_not_slot:
  "filter is_slot_event (map cache_event_of evs) = []"
  "filter (on_slot s) (map cache_event_of evs) = []"
  by (induction evs) (simp_all add: cache_event_of_def)



subsection \<open>Subscriptions and symbols\<close>

lemma unsubscribe_eq:
  "CacheValue_unsubscribe sub w =
     (case h_complete (vs_handlers sub) of
        None \<Rightarrow>
          (if vs_slot sub < length (slots w)
           then (Inr (),
                 w\<lparr>slots := (slots w)[vs_slot sub := (slots w ! vs_slot sub)
                      \<lparr>subscribers := AList.delete (vs_symbol sub)
                                         (subscribers (slots w ! vs_slot sub))\<rparr>]\<rparr>)
           else (Inl TypeError, w))
      | Some cb \<Rightarrow>
          (if cb_throws cb
           then (Inl (HandlerError (cb_id cb)),
                 w\<lparr>trace := trace w @ [CompleteCalled (vs_symbol sub) (cb_id cb)]\<rparr>)
           else if vs_slot sub < length (slots w)
           then (Inr (),
                 w\<lparr>slots := (slots w)[vs_slot sub := (slots w ! vs_slot sub)
                      \<lparr>subscribers := AList.delete (vs_symbol sub)
                                         (subscribers (slots w ! vs_slot sub))\<rparr>],
                   trace := trace w @ [CompleteCalled (vs_symbol sub) (cb_id cb)]\<rparr>)
           else (Inl TypeError,
                 w\<lparr>trace := trace w @ [CompleteCalled (vs_symbol sub) (cb_id cb)]\<rparr>)))"
  by (simp add: CacheValue_unsubscribe_def optional_call_eq slot_at_def split: option.split)

lemma unsubscribeAll_eq:
  "s < length (slots w) \<Longrightarrow>
   CacheValue_unsubscribeAll s w =
     (case pass_result True (subscribers (slots w ! s)) of
        Inl e \<Rightarrow> (Inl e, w\<lparr>trace := trace w @ pass_events True s (subscribers (slots w ! s))\<rparr>)
      | Inr u \<Rightarrow>
          (Inr (),
           w\<lparr>slots := (slots w)[s := (slots w ! s)\<lparr>subscribers := []\<rparr>],
             trace := trace w @ pass_events True s (subscribers (slots w ! s))\<rparr>))"
  by (simp add: CacheValue_unsubscribeAll_def notify_value_eq slot_at_def split: sum.split)

lemma unsubscribeAll_none:
  "\<not> s < length (slots w) \<Longrightarrow> CacheValue_unsubscribeAll s w = (Inl TypeError, w)"
  by (simp add: CacheValue_unsubscribeAll_def notify_value_none)

lemma clear_none:
  "\<not> s < length (slots w) \<Longrightarrow> CacheValue_clear s w = (Inl TypeError, w)"
  by (simp add: CacheValue_clear_def slot_at_def)

lemma subscribe_none:
  "\<not> s < length (slots w) \<Longrightarrow> CacheValue_subscribe s h w = (Inl TypeError, w)"
  by (simp add: CacheValue_subscribe_def slot_at_def)

lemma unwrap_world:
  "\<exists>evs. snd (CacheValue_unwrapCurrent s hs w) = w\<lparr>trace := trace w @ evs\<rparr>
         \<and> (\<forall>e\<in>set evs. event_token e = None)"
  "\<exists>evs. snd (CacheValue_unwrapPrevious s hs w) = w\<lparr>trace := trace w @ evs\<rparr>
         \<and> (\<forall>e\<in>set evs. event_token e = None)"
proof -
  have triv: "w = w\<lparr>trace := trace w @ []\<rparr> \<and> (\<forall>e\<in>set []. event_token e = None)" by simp
  have one: "\<And>e. event_token e = None \<Longrightarrow>
     w\<lparr>trace := trace w @ [e]\<rparr> = w\<lparr>trace := trace w @ [e]\<rparr> \<and> (\<forall>x\<in>set [e]. event_token x = None)"
    by simp
  show "\<exists>evs. snd (CacheValue_unwrapCurrent s hs w) = w\<lparr>trace := trace w @ evs\<rparr>
         \<and> (\<forall>e\<in>set evs. event_token e = None)"
    apply (simp add: CacheValue_unwrapCurrent_def slot_at_def optional_call_eq
        split: option.split sum.split prod.split)
    apply (intro conjI impI allI)
    apply (auto intro: exI [of _ "[]"] exI [of _ "[OnPresentCalled c v]" for c v] exI [of _ "[OnAbsentCalled c]" for c])
    done
  show "\<exists>evs. snd (CacheValue_unwrapPrevious s hs w) = w\<lparr>trace := trace w @ evs\<rparr>
         \<and> (\<forall>e\<in>set evs. event_token e = None)"
    apply (simp add: CacheValue_unwrapPrevious_def slot_at_def optional_call_eq
        split: option.split sum.split prod.split)
    apply (intro conjI impI allI)
    apply (auto intro: exI [of _ "[]"] exI [of _ "[OnPresentCalled c v]" for c v] exI [of _ "[OnAbsentCalled c]" for c])
    done
qed

lemma set_reached: "set (reached c subs) \<subseteq> set subs"
  by (auto simp: reached_def dest: set_takeWhileD in_set_takeD set_dropWhileD)

lemma set_cache_reached: "set (cache_reached subs) \<subseteq> set subs"
  by (auto simp: cache_reached_def dest: set_takeWhileD in_set_takeD set_dropWhileD)

lemma for_token_events:
  "\<forall>p\<in>set xs. fst p \<noteq> tok \<Longrightarrow> filter (for_token tok) (concat (map (event_of c s) xs)) = []"
  by (induction xs) (auto simp: event_of_def for_token_def split: option.split)

lemma for_token_pass_events:
  "tok \<notin> fst ` set subs \<Longrightarrow> filter (for_token tok) (pass_events c s subs) = []"
  unfolding pass_events_def
  by (rule for_token_events) (use set_reached [of c subs] in auto)

lemma for_token_cache_events:
  "tok \<notin> fst ` set subs \<Longrightarrow> filter (for_token tok) (map cache_event_of (cache_reached subs)) = []"
  using set_cache_reached [of subs]
  by (auto simp: filter_empty_conv cache_event_of_def for_token_def)

lemma set_registered:
  "set (registered w) = fst ` set (cache_subscribers w) \<union> (\<Union>cv\<in>set (slots w). fst ` set (subscribers cv))"
  by (auto simp: registered_def slot_tokens_def)

lemma slot_tokens_registered:
  "s < length (slots w) \<Longrightarrow> fst ` set (subscribers (slots w ! s)) \<subseteq> set (registered w)"
proof
  fix t assume s: "s < length (slots w)" and t: "t \<in> fst ` set (subscribers (slots w ! s))"
  from s have "slots w ! s \<in> set (slots w)" by (rule nth_mem)
  with t have "t \<in> (\<Union>cv\<in>set (slots w). fst ` set (subscribers cv))" by blast
  then show "t \<in> set (registered w)" by (simp add: set_registered)
qed

lemma registered_slot_update:
  assumes "s < length (slots w)" "slots w' = (slots w)[s := y]"
    "cache_subscribers w' = cache_subscribers w"
  shows "\<exists>A B. registered w = A @ slot_tokens (slots w ! s) @ B
              \<and> registered w' = A @ slot_tokens y @ B"
proof -
  let ?A = "map fst (cache_subscribers w) @ concat (map slot_tokens (take s (slots w)))"
  let ?B = "concat (map slot_tokens (drop (Suc s) (slots w)))"
  have "slots w = take s (slots w) @ slots w ! s # drop (Suc s) (slots w)"
    using assms(1) by (simp add: id_take_nth_drop [symmetric])
  then have "concat (map slot_tokens (slots w))
      = concat (map slot_tokens (take s (slots w) @ slots w ! s # drop (Suc s) (slots w)))"
    by simp
  then have 1: "registered w = ?A @ slot_tokens (slots w ! s) @ ?B"
    by (simp add: registered_def)
  have 2: "registered w' = ?A @ slot_tokens y @ ?B"
    using assms by (simp add: registered_def upd_conv_take_nth_drop)
  from 1 2 show ?thesis by blast
qed

lemma registered_same:
  assumes "map subscribers (slots w') = map subscribers (slots w)"
    "cache_subscribers w' = cache_subscribers w"
  shows "registered w' = registered w"
proof -
  have "map slot_tokens (slots w') = map (map fst) (map subscribers (slots w'))"
    by (simp add: slot_tokens_def comp_def)
  also have "\<dots> = map slot_tokens (slots w)"
    using assms(1) by (simp add: slot_tokens_def comp_def)
  finally show ?thesis using assms(2) by (simp add: registered_def)
qed

lemma unique_tokens_same:
  assumes "map subscribers (slots w') = map subscribers (slots w)"
    "cache_subscribers w' = cache_subscribers w" "symbols w' = symbols w"
  shows "unique_tokens w' = unique_tokens w"
  using registered_same [OF assms(1,2)] assms(3) by (simp add: unique_tokens_def)

lemma update_fresh: "k \<notin> fst ` set al \<Longrightarrow> AList.update k v al = al @ [(k, v)]"
  by (induction al) auto

lemma not_registered:
  assumes "tok \<notin> set (registered w)"
  shows "tok \<notin> fst ` set (cache_subscribers w)"
    and "s < length (slots w) \<Longrightarrow> tok \<notin> fst ` set (subscribers (slots w ! s))"
  using assms slot_tokens_registered [of s w] by (auto simp: set_registered)

lemma fire_registered:
  "registered (fire t u) = registered u"
  by (rule registered_same) (simp_all add: fire_frame)

lemma fire_tokens:
  assumes "tok \<notin> set (registered u)"
  shows "filter (for_token tok) (trace (fire t u)) = filter (for_token tok) (trace u)"
proof (cases t)
  case (Pair dl s)
  show ?thesis
  proof (cases "s < length (slots u)")
    case True
    then show ?thesis using Pair not_registered(2) [OF assms True]
      by (simp add: fire_eq for_token_pass_events)
  next
    case False
    then show ?thesis using Pair by (simp add: fire_none)
  qed
qed

lemma fold_fire_tokens:
  "tok \<notin> set (registered u) \<Longrightarrow>
   filter (for_token tok) (trace (fold fire ts u)) = filter (for_token tok) (trace u)"
proof (induction ts arbitrary: u)
  case Nil
  show ?case by simp
next
  case (Cons t ts)
  have "tok \<notin> set (registered (fire t u))" using Cons.prems by (simp add: fire_registered)
  from Cons.IH [OF this] fire_tokens [OF Cons.prems, of t]
  show ?case by simp
qed

lemma elapse_tokens:
  assumes "tok \<notin> set (registered u)"
  shows "filter (for_token tok) (trace (elapse d u)) = filter (for_token tok) (trace u)"
proof -
  let ?u0 = "u\<lparr>now := now u + d, timers := filter (\<lambda>x. \<not> fst x \<le> now u + d) (timers u)\<rparr>"
  have "registered ?u0 = registered u" by (simp add: registered_def)
  with assms have "tok \<notin> set (registered ?u0)" by simp
  from fold_fire_tokens [OF this]
  show ?thesis by (simp add: elapse_def Let_def)
qed

lemma update_tokens:
  assumes "tok \<notin> fst ` set (subscribers (slots w ! s))"
  shows "filter (for_token tok) (trace (snd (CacheValue_update s v w)))
           = filter (for_token tok) (trace w)"
  using assms
  by (cases "s < length (slots w)")
    (simp_all add: update_eq update_none Let_def for_token_pass_events)

lemma clear_tokens:
  assumes "tok \<notin> fst ` set (subscribers (slots w ! s))"
  shows "filter (for_token tok) (trace (snd (CacheValue_clear s w)))
           = filter (for_token tok) (trace w)"
  using assms
  by (cases "s < length (slots w)")
    (simp_all add: clear_eq clear_none Let_def for_token_pass_events)

lemma unsubscribeAll_tokens:
  assumes "tok \<notin> fst ` set (subscribers (slots w ! s))"
  shows "filter (for_token tok) (trace (snd (CacheValue_unsubscribeAll s w)))
           = filter (for_token tok) (trace w)"
  using assms
  by (cases "s < length (slots w)")
    (simp_all add: unsubscribeAll_eq unsubscribeAll_none for_token_pass_events split: sum.split)

lemma unsubscribe_tokens:
  assumes "vs_symbol sub \<noteq> tok"
  shows "filter (for_token tok) (trace (snd (CacheValue_unsubscribe sub w)))
           = filter (for_token tok) (trace w)"
  using assms by (simp add: unsubscribe_eq for_token_def split: option.split)

lemma unwrap_tokens:
  "filter (for_token tok) (trace (snd (CacheValue_unwrapCurrent s hs w)))
     = filter (for_token tok) (trace w)"
  "filter (for_token tok) (trace (snd (CacheValue_unwrapPrevious s hs w)))
     = filter (for_token tok) (trace w)"
proof -
  obtain e1 where 1: "snd (CacheValue_unwrapCurrent s hs w) = w\<lparr>trace := trace w @ e1\<rparr>"
    "\<forall>e\<in>set e1. event_token e = None" using unwrap_world(1) by blast
  obtain e2 where 2: "snd (CacheValue_unwrapPrevious s hs w) = w\<lparr>trace := trace w @ e2\<rparr>"
    "\<forall>e\<in>set e2. event_token e = None" using unwrap_world(2) by blast
  have "filter (for_token tok) e1 = []" "filter (for_token tok) e2 = []"
    using 1(2) 2(2) by (simp_all add: filter_empty_conv for_token_def)
  then show "filter (for_token tok) (trace (snd (CacheValue_unwrapCurrent s hs w)))
     = filter (for_token tok) (trace w)"
    "filter (for_token tok) (trace (snd (CacheValue_unwrapPrevious s hs w)))
     = filter (for_token tok) (trace w)"
    by (simp_all add: 1(1) 2(1))
qed

lemma cache_tokens:
  assumes "tok \<notin> fst ` set (cache_subscribers w)"
  shows "filter (for_token tok) (trace (snd (CacheIt_set key v ttl w)))
           = filter (for_token tok) (trace w)"
    and "filter (for_token tok) (trace (snd (CacheIt_delete key w)))
           = filter (for_token tok) (trace w)"
    and "filter (for_token tok) (trace (snd (CacheIt_clear w)))
           = filter (for_token tok) (trace w)"
  using assms by (simp_all add: set_eq delete_eq cache_clear_eq for_token_cache_events)

lemma exec_tokens:
  assumes "tok \<notin> set (registered w)" and "\<not> unsubscribes tok c"
  shows "filter (for_token tok) (trace (exec c w)) = filter (for_token tok) (trace w)"
proof (cases c)
  case (Cache_set key v ttl)
  then show ?thesis using cache_tokens(1) [OF not_registered(1) [OF assms(1)]] by simp
next
  case (Cache_delete key)
  then show ?thesis using cache_tokens(2) [OF not_registered(1) [OF assms(1)]] by simp
next
  case Cache_clear
  then show ?thesis using cache_tokens(3) [OF not_registered(1) [OF assms(1)]] by simp
next
  case (Cache_subscribe h)
  then show ?thesis by (simp add: CacheIt_subscribe_def Let_def)
next
  case (Cache_unsubscribe sub)
  then show ?thesis by (simp add: CacheIt_unsubscribe_def)
next
  case Cache_unsubscribeAll
  then show ?thesis by (simp add: CacheIt_unsubscribeAll_def)
next
  case (Value_update s v)
  show ?thesis
  proof (cases "s < length (slots w)")
    case True
    then show ?thesis using Value_update update_tokens [OF not_registered(2) [OF assms(1) True]]
      by simp
  next
    case False
    then show ?thesis using Value_update by (simp add: update_none)
  qed
next
  case (Value_clear s)
  show ?thesis
  proof (cases "s < length (slots w)")
    case True
    then show ?thesis using Value_clear clear_tokens [OF not_registered(2) [OF assms(1) True]]
      by simp
  next
    case False
    then show ?thesis using Value_clear by (simp add: clear_none)
  qed
next
  case (Value_subscribe s h)
  then show ?thesis
    by (cases "s < length (slots w)") (simp_all add: subscribe_eq subscribe_none)
next
  case (Value_unsubscribe sub)
  then show ?thesis using assms(2) unsubscribe_tokens [of sub tok w] by simp
next
  case (Value_unsubscribeAll s)
  show ?thesis
  proof (cases "s < length (slots w)")
    case True
    then show ?thesis
      using Value_unsubscribeAll unsubscribeAll_tokens [OF not_registered(2) [OF assms(1) True]]
      by simp
  next
    case False
    then show ?thesis using Value_unsubscribeAll by (simp add: unsubscribeAll_none)
  qed
next
  case (Value_unwrapCurrent s hs)
  then show ?thesis by (simp add: unwrap_tokens)
next
  case (Value_unwrapPrevious s hs)
  then show ?thesis by (simp add: unwrap_tokens)
next
  case (Object_new obj)
  then show ?thesis by (simp add: heap_alloc_def)
next
  case (Object_write a obj)
  then show ?thesis by (simp add: heap_write_def)
next
  case (Elapse d)
  then show ?thesis using elapse_tokens [OF assms(1)] by simp
qed

lemma unwrap_registry:
  "slots (snd (CacheValue_unwrapCurrent s hs w)) = slots w
   \<and> cache_subscribers (snd (CacheValue_unwrapCurrent s hs w)) = cache_subscribers w
   \<and> symbols (snd (CacheValue_unwrapCurrent s hs w)) = symbols w"
  "slots (snd (CacheValue_unwrapPrevious s hs w)) = slots w
   \<and> cache_subscribers (snd (CacheValue_unwrapPrevious s hs w)) = cache_subscribers w
   \<and> symbols (snd (CacheValue_unwrapPrevious s hs w)) = symbols w"
proof -
  obtain e1 where 1: "snd (CacheValue_unwrapCurrent s hs w) = w\<lparr>trace := trace w @ e1\<rparr>"
    using unwrap_world(1) by blast
  obtain e2 where 2: "snd (CacheValue_unwrapPrevious s hs w) = w\<lparr>trace := trace w @ e2\<rparr>"
    using unwrap_world(2) by blast
  show "slots (snd (CacheValue_unwrapCurrent s hs w)) = slots w
   \<and> cache_subscribers (snd (CacheValue_unwrapCurrent s hs w)) = cache_subscribers w
   \<and> symbols (snd (CacheValue_unwrapCurrent s hs w)) = symbols w"
    by (simp add: 1)
  show "slots (snd (CacheValue_unwrapPrevious s hs w)) = slots w
   \<and> cache_subscribers (snd (CacheValue_unwrapPrevious s hs w)) = cache_subscribers w
   \<and> symbols (snd (CacheValue_unwrapPrevious s hs w)) = symbols w"
    by (simp add: 2)
qed

lemma exec_registry_same:
  assumes "c = Cache_delete key \<or> c = Cache_clear \<or> c = Value_update s v \<or> c = Value_clear s
    \<or> c = Value_unwrapCurrent s hs \<or> c = Value_unwrapPrevious s hs \<or> c = Object_new obj
    \<or> c = Object_write a obj \<or> c = Elapse d"
  shows "map subscribers (slots (exec c w)) = map subscribers (slots w)
    \<and> cache_subscribers (exec c w) = cache_subscribers w
    \<and> symbols (exec c w) = symbols w"
proof -
  have upd: "map subscribers (slots (snd (CacheValue_update s v w))) = map subscribers (slots w)
    \<and> cache_subscribers (snd (CacheValue_update s v w)) = cache_subscribers w
    \<and> symbols (snd (CacheValue_update s v w)) = symbols w"
    by (cases "s < length (slots w)")
      (simp_all add: update_eq update_none Let_def map_update list_update_same_conv)
  have clr: "map subscribers (slots (snd (CacheValue_clear s w))) = map subscribers (slots w)
    \<and> cache_subscribers (snd (CacheValue_clear s w)) = cache_subscribers w
    \<and> symbols (snd (CacheValue_clear s w)) = symbols w"
    by (cases "s < length (slots w)")
      (simp_all add: clear_eq clear_none Let_def map_update list_update_same_conv)
  from assms show ?thesis
    using upd clr unwrap_registry [of s hs w] elapse_frame [of d w]
    by (auto simp: delete_eq cache_clear_eq heap_alloc_def heap_write_def)
qed

lemma set_registry:
  "registered (snd (CacheIt_set key v ttl w)) = registered w
   \<and> symbols (snd (CacheIt_set key v ttl w)) = symbols w"
  by (simp add: set_eq registered_def slot_tokens_def)

lemma unique_grow:
  assumes u: "unique_tokens w"
    and r: "registered w = A @ T @ B" "registered w' = A @ (T @ [symbols w]) @ B"
    and s: "symbols w' = Suc (symbols w)"
  shows "unique_tokens w'"
proof -
  have lt: "\<forall>t\<in>set (A @ T @ B). t < symbols w"
    using u r(1) by (simp add: unique_tokens_def list_all_iff)
  then have fresh: "symbols w \<notin> set (A @ T @ B)" by auto
  have d: "distinct (A @ T @ B)" using u r(1) by (simp add: unique_tokens_def)
  have "distinct (A @ (T @ [symbols w]) @ B)" using d fresh by auto
  moreover have "\<forall>t\<in>set (A @ (T @ [symbols w]) @ B). t < Suc (symbols w)"
    using lt by (auto simp: less_Suc_eq)
  ultimately show ?thesis by (simp add: unique_tokens_def r(2) s list_all_iff)
qed

lemma unique_shrink:
  assumes u: "unique_tokens w"
    and r: "registered w = A @ T @ B" "registered w' = A @ T' @ B"
    and t: "distinct T'" "set T' \<subseteq> set T"
    and s: "symbols w' = symbols w"
  shows "unique_tokens w'"
proof -
  have lt: "\<forall>t\<in>set (A @ T @ B). t < symbols w"
    using u r(1) by (simp add: unique_tokens_def list_all_iff)
  have d: "distinct (A @ T @ B)" using u r(1) by (simp add: unique_tokens_def)
  have "distinct (A @ T' @ B)" using d t by auto
  moreover have "\<forall>x\<in>set (A @ T' @ B). x < symbols w" using lt t(2) by auto
  ultimately show ?thesis by (simp add: unique_tokens_def r(2) s list_all_iff)
qed

lemma fresh_symbol:
  "unique_tokens w \<Longrightarrow> symbols w \<notin> set (registered w)"
  by (auto simp: unique_tokens_def list_all_iff)

lemma subscribe_unique:
  assumes u: "unique_tokens w"
  shows "unique_tokens (snd (CacheValue_subscribe s h w))"
proof (cases "s < length (slots w)")
  case False
  then show ?thesis using u by (simp add: subscribe_none)
next
  case True
  let ?y = "(slots w ! s)\<lparr>subscribers := AList.update (symbols w) h (subscribers (slots w ! s))\<rparr>"
  let ?w' = "snd (CacheValue_subscribe s h w)"
  have w': "slots ?w' = (slots w)[s := ?y]" "cache_subscribers ?w' = cache_subscribers w"
    "symbols ?w' = Suc (symbols w)"
    using True by (simp_all add: subscribe_eq)
  from registered_slot_update [OF True w'(1,2)] obtain A B where
    r: "registered w = A @ slot_tokens (slots w ! s) @ B" "registered ?w' = A @ slot_tokens ?y @ B"
    by blast
  have "symbols w \<notin> fst ` set (subscribers (slots w ! s))"
    using fresh_symbol [OF u] slot_tokens_registered [OF True] by auto
  then have "slot_tokens ?y = slot_tokens (slots w ! s) @ [symbols w]"
    by (simp add: slot_tokens_def update_fresh)
  with r(2) have r2: "registered ?w' = A @ (slot_tokens (slots w ! s) @ [symbols w]) @ B"
    by simp
  show ?thesis by (rule unique_grow [OF u r(1) r2 w'(3)])
qed

lemma unsubscribe_registry:
  "vs_slot sub < length (slots w) \<and> slots (snd (CacheValue_unsubscribe sub w))
       = (slots w)[vs_slot sub := (slots w ! vs_slot sub)
            \<lparr>subscribers := AList.delete (vs_symbol sub) (subscribers (slots w ! vs_slot sub))\<rparr>]
     \<or> slots (snd (CacheValue_unsubscribe sub w)) = slots w"
  "cache_subscribers (snd (CacheValue_unsubscribe sub w)) = cache_subscribers w"
  "symbols (snd (CacheValue_unsubscribe sub w)) = symbols w"
  by (simp_all add: unsubscribe_eq split: option.split)

lemma shrink_slot_unique:
  assumes u: "unique_tokens w" and s: "s < length (slots w)"
    and w': "slots w' = (slots w)[s := y]" "cache_subscribers w' = cache_subscribers w"
      "symbols w' = symbols w"
    and y: "distinct (slot_tokens y)" "set (slot_tokens y) \<subseteq> set (slot_tokens (slots w ! s))"
  shows "unique_tokens w'"
proof -
  from registered_slot_update [OF s w'(1,2)] obtain A B where
    r: "registered w = A @ slot_tokens (slots w ! s) @ B" "registered w' = A @ slot_tokens y @ B"
    by blast
  show ?thesis by (rule unique_shrink [OF u r y w'(3)])
qed

lemma slot_tokens_distinct:
  "unique_tokens w \<Longrightarrow> s < length (slots w) \<Longrightarrow> distinct (slot_tokens (slots w ! s))"
proof -
  assume u: "unique_tokens w" and s: "s < length (slots w)"
  have "slots w = (slots w)[s := slots w ! s]" by simp
  from registered_slot_update [OF s this refl] obtain A B where
    "registered w = A @ slot_tokens (slots w ! s) @ B" by blast
  then show ?thesis using u by (simp add: unique_tokens_def)
qed

lemma unsubscribe_unique:
  assumes u: "unique_tokens w"
  shows "unique_tokens (snd (CacheValue_unsubscribe sub w))"
proof -
  let ?w' = "snd (CacheValue_unsubscribe sub w)"
  let ?s = "vs_slot sub"
  let ?y = "(slots w ! ?s)\<lparr>subscribers := AList.delete (vs_symbol sub) (subscribers (slots w ! ?s))\<rparr>"
  from unsubscribe_registry(1) [of sub w] show ?thesis
  proof
    assume a: "?s < length (slots w) \<and> slots ?w' = (slots w)[?s := ?y]"
    have y: "slot_tokens ?y = removeAll (vs_symbol sub) (slot_tokens (slots w ! ?s))"
      by (simp add: slot_tokens_def delete_keys)
    have d: "distinct (slot_tokens ?y)"
      unfolding y using slot_tokens_distinct [OF u] a by (simp add: distinct_removeAll)
    have sub: "set (slot_tokens ?y) \<subseteq> set (slot_tokens (slots w ! ?s))"
      unfolding y by auto
    show ?thesis
      using shrink_slot_unique [OF u _ _ unsubscribe_registry(2,3) d sub] a by blast
  next
    assume "slots ?w' = slots w"
    then have "map subscribers (slots ?w') = map subscribers (slots w)" by simp
    from unique_tokens_same [OF this unsubscribe_registry(2,3)] u show ?thesis by simp
  qed
qed

lemma unsubscribeAll_unique:
  assumes u: "unique_tokens w"
  shows "unique_tokens (snd (CacheValue_unsubscribeAll s w))"
proof (cases "s < length (slots w)")
  case False
  then show ?thesis using u by (simp add: unsubscribeAll_none)
next
  case True
  let ?w' = "snd (CacheValue_unsubscribeAll s w)"
  show ?thesis
  proof (cases "pass_result True (subscribers (slots w ! s))")
    case (Inl e)
    then have "map subscribers (slots ?w') = map subscribers (slots w)"
      "cache_subscribers ?w' = cache_subscribers w" "symbols ?w' = symbols w"
      using True by (simp_all add: unsubscribeAll_eq)
    from unique_tokens_same [OF this] u show ?thesis by simp
  next
    case (Inr x)
    then have w': "slots ?w' = (slots w)[s := (slots w ! s)\<lparr>subscribers := []\<rparr>]"
      "cache_subscribers ?w' = cache_subscribers w" "symbols ?w' = symbols w"
      using True by (simp_all add: unsubscribeAll_eq)
    show ?thesis
      by (rule shrink_slot_unique [OF u True w']) (simp_all add: slot_tokens_def)
  qed
qed

lemma cache_subscribe_unique:
  assumes u: "unique_tokens w"
  shows "unique_tokens (snd (CacheIt_subscribe h w))"
proof -
  let ?w' = "snd (CacheIt_subscribe h w)"
  have "symbols w \<notin> fst ` set (cache_subscribers w)"
    using fresh_symbol [OF u] by (auto simp: set_registered)
  then have "cache_subscribers ?w' = cache_subscribers w @ [(symbols w, h)]"
    by (simp add: CacheIt_subscribe_def Let_def update_fresh)
  then have r2: "registered ?w' = [] @ (map fst (cache_subscribers w) @ [symbols w])
                    @ concat (map slot_tokens (slots w))"
    by (simp add: registered_def CacheIt_subscribe_def Let_def)
  have r1: "registered w = [] @ map fst (cache_subscribers w) @ concat (map slot_tokens (slots w))"
    by (simp add: registered_def)
  have s: "symbols ?w' = Suc (symbols w)" by (simp add: CacheIt_subscribe_def Let_def)
  show ?thesis by (rule unique_grow [OF u r1 r2 s])
qed

lemma cache_unsubscribe_unique:
  assumes u: "unique_tokens w"
  shows "unique_tokens (CacheIt_unsubscribe sub w)" "unique_tokens (CacheIt_unsubscribeAll w)"
proof -
  have r1: "registered w = [] @ map fst (cache_subscribers w) @ concat (map slot_tokens (slots w))"
    by (simp add: registered_def)
  have d: "distinct (map fst (cache_subscribers w))" using u by (simp add: unique_tokens_def r1)
  have r2: "registered (CacheIt_unsubscribe sub w)
      = [] @ removeAll (cs_symbol sub) (map fst (cache_subscribers w))
           @ concat (map slot_tokens (slots w))"
    by (simp add: registered_def CacheIt_unsubscribe_def delete_keys)
  show "unique_tokens (CacheIt_unsubscribe sub w)"
    by (rule unique_shrink [OF u r1 r2]) (use d in \<open>auto simp: distinct_removeAll CacheIt_unsubscribe_def\<close>)
  have r3: "registered (CacheIt_unsubscribeAll w) = [] @ [] @ concat (map slot_tokens (slots w))"
    by (simp add: registered_def CacheIt_unsubscribeAll_def)
  show "unique_tokens (CacheIt_unsubscribeAll w)"
    by (rule unique_shrink [OF u r1 r3]) (simp_all add: CacheIt_unsubscribeAll_def)
qed

lemma same_unique:
  "map subscribers (slots w') = map subscribers (slots w)
    \<and> cache_subscribers w' = cache_subscribers w \<and> symbols w' = symbols w
   \<Longrightarrow> unique_tokens w \<Longrightarrow> unique_tokens w'"
  using unique_tokens_same [of w' w] by simp

lemma exec_unique:
  assumes u: "unique_tokens w"
  shows "unique_tokens (exec c w)"
proof (cases c)
  case (Cache_set key v ttl)
  then show ?thesis using u set_registry [of key v ttl w] by (simp add: unique_tokens_def)
next
  case (Cache_delete key)
  show ?thesis
    by (rule same_unique [OF exec_registry_same [where c = c and key = key] u])
      (simp add: Cache_delete)
next
  case Cache_clear
  show ?thesis
    by (rule same_unique [OF exec_registry_same [where c = c] u]) (simp add: Cache_clear)
next
  case (Cache_subscribe h)
  then show ?thesis using cache_subscribe_unique [OF u] by simp
next
  case (Cache_unsubscribe sub)
  then show ?thesis using cache_unsubscribe_unique [OF u] by simp
next
  case Cache_unsubscribeAll
  then show ?thesis using cache_unsubscribe_unique [OF u] by simp
next
  case (Value_update s v)
  show ?thesis
    by (rule same_unique [OF exec_registry_same [where c = c and s = s and v = v] u])
      (simp add: Value_update)
next
  case (Value_clear s)
  show ?thesis
    by (rule same_unique [OF exec_registry_same [where c = c and s = s] u])
      (simp add: Value_clear)
next
  case (Value_subscribe s h)
  then show ?thesis using subscribe_unique [OF u] by simp
next
  case (Value_unsubscribe sub)
  then show ?thesis using unsubscribe_unique [OF u] by simp
next
  case (Value_unsubscribeAll s)
  then show ?thesis using unsubscribeAll_unique [OF u] by simp
next
  case (Value_unwrapCurrent s hs)
  show ?thesis
    by (rule same_unique [OF exec_registry_same [where c = c and s = s and hs = hs] u])
      (simp add: Value_unwrapCurrent)
next
  case (Value_unwrapPrevious s hs)
  show ?thesis
    by (rule same_unique [OF exec_registry_same [where c = c and s = s and hs = hs] u])
      (simp add: Value_unwrapPrevious)
next
  case (Object_new obj)
  show ?thesis
    by (rule same_unique [OF exec_registry_same [where c = c and obj = obj] u])
      (simp add: Object_new)
next
  case (Object_write a obj)
  show ?thesis
    by (rule same_unique [OF exec_registry_same [where c = c and a = a and obj = obj] u])
      (simp add: Object_write)
next
  case (Elapse d)
  show ?thesis
    by (rule same_unique [OF exec_registry_same [where c = c and d = d] u])
      (simp add: Elapse)
qed

lemma run_unique: "unique_tokens w \<Longrightarrow> unique_tokens (run cs w)"
  unfolding run_def by (induction cs arbitrary: w) (simp_all add: exec_unique)

lemma new_world_unique: "unique_tokens new_world"
  by (simp add: unique_tokens_def registered_def new_world_def)

lemma registered_update_subset:
  assumes "slots w' = (slots w)[s := y]" "cache_subscribers w' = cache_subscribers w"
  shows "set (registered w') \<subseteq> set (registered w) \<union> fst ` set (subscribers y)"
proof
  fix t assume "t \<in> set (registered w')"
  then consider "t \<in> fst ` set (cache_subscribers w')"
    | cv where "cv \<in> set (slots w')" "t \<in> fst ` set (subscribers cv)"
    unfolding set_registered by blast
  then show "t \<in> set (registered w) \<union> fst ` set (subscribers y)"
  proof cases
    case 1
    then show ?thesis using assms(2) by (simp add: set_registered)
  next
    case 2
    have "set (slots w') \<subseteq> insert y (set (slots w))"
      unfolding assms(1) by (rule set_update_subset_insert)
    with 2(1) have "cv = y \<or> cv \<in> set (slots w)" by blast
    then show ?thesis
    proof
      assume "cv = y"
      with 2(2) show ?thesis by simp
    next
      assume "cv \<in> set (slots w)"
      with 2(2) have "t \<in> (\<Union>cv\<in>set (slots w). fst ` set (subscribers cv))" by blast
      then show ?thesis by (simp add: set_registered)
    qed
  qed
qed

lemma keys_delete: "fst ` set (AList.delete k al) \<subseteq> fst ` set al"
  by (induction al) auto

lemma registry_facts:
  assumes "set (registered w') \<subseteq> insert (symbols w) (set (registered w))"
    "symbols w \<le> symbols w'" "length (slots w') = length (slots w)"
  shows "set (registered w') \<subseteq> insert (symbols w) (set (registered w))
   \<and> symbols w \<le> symbols w' \<and> length (slots w) \<le> length (slots w')"
  using assms by simp

lemma exec_registered:
  "set (registered (exec c w)) \<subseteq> insert (symbols w) (set (registered w))
   \<and> symbols w \<le> symbols (exec c w)
   \<and> length (slots w) \<le> length (slots (exec c w))"
proof -
  have same: "map subscribers (slots (exec c w)) = map subscribers (slots w)
    \<and> cache_subscribers (exec c w) = cache_subscribers w
    \<and> symbols (exec c w) = symbols w \<Longrightarrow> ?thesis"
  proof -
    assume a: "map subscribers (slots (exec c w)) = map subscribers (slots w)
    \<and> cache_subscribers (exec c w) = cache_subscribers w
    \<and> symbols (exec c w) = symbols w"
    then have "registered (exec c w) = registered w" by (intro registered_same) simp_all
    moreover have "length (slots (exec c w)) = length (slots w)"
      using a by (metis length_map)
    ultimately show ?thesis using a by auto
  qed
  show ?thesis
  proof (cases c)
    case (Cache_set key v ttl)
    have "length (slots (snd (CacheIt_set key v ttl w))) = Suc (length (slots w))"
      by (simp add: set_eq)
    then show ?thesis using set_registry [of key v ttl w] Cache_set by auto
  next
    case (Cache_delete key)
    show ?thesis
      by (rule same [OF exec_registry_same [where c = c and key = key]]) (simp add: Cache_delete)
  next
    case Cache_clear
    show ?thesis by (rule same [OF exec_registry_same [where c = c]]) (simp add: Cache_clear)
  next
    case (Cache_subscribe h)
    let ?w' = "snd (CacheIt_subscribe h w)"
    have f: "slots ?w' = slots w" "symbols ?w' = Suc (symbols w)"
      "fst ` set (cache_subscribers ?w') = {symbols w} \<union> fst ` set (cache_subscribers w)"
      by (simp_all add: CacheIt_subscribe_def Let_def dom_update)
    have "set (registered ?w') \<subseteq> insert (symbols w) (set (registered w))"
      unfolding set_registered f by blast
    then show ?thesis using Cache_subscribe f(1,2) by simp
  next
    case (Cache_unsubscribe sub)
    let ?w' = "CacheIt_unsubscribe sub w"
    have f: "slots ?w' = slots w" "symbols ?w' = symbols w"
      "cache_subscribers ?w' = AList.delete (cs_symbol sub) (cache_subscribers w)"
      by (simp_all add: CacheIt_unsubscribe_def)
    have "set (registered ?w') \<subseteq> set (registered w)"
      using keys_delete [of "cs_symbol sub" "cache_subscribers w"]
      unfolding set_registered f by blast
    then have "set (registered ?w') \<subseteq> insert (symbols w) (set (registered w))" by blast
    then show ?thesis using Cache_unsubscribe f(1,2) by simp
  next
    case Cache_unsubscribeAll
    let ?w' = "CacheIt_unsubscribeAll w"
    have f: "slots ?w' = slots w" "symbols ?w' = symbols w" "cache_subscribers ?w' = []"
      by (simp_all add: CacheIt_unsubscribeAll_def)
    have "set (registered ?w') \<subseteq> insert (symbols w) (set (registered w))"
      unfolding set_registered f by auto
    then show ?thesis using Cache_unsubscribeAll f(1,2) by simp
  next
    case (Value_update s v)
    show ?thesis
      by (rule same [OF exec_registry_same [where c = c and s = s and v = v]])
        (simp add: Value_update)
  next
    case (Value_clear s)
    show ?thesis
      by (rule same [OF exec_registry_same [where c = c and s = s]]) (simp add: Value_clear)
  next
    case (Value_subscribe s h)
    show ?thesis
    proof (cases "s < length (slots w)")
      case False
      then show ?thesis using Value_subscribe by (auto simp: subscribe_none)
    next
      case True
      let ?y = "(slots w ! s)\<lparr>subscribers := AList.update (symbols w) h (subscribers (slots w ! s))\<rparr>"
      have w': "slots (exec c w) = (slots w)[s := ?y]"
        "cache_subscribers (exec c w) = cache_subscribers w"
        "symbols (exec c w) = Suc (symbols w)"
        using True Value_subscribe by (simp_all add: subscribe_eq)
      have "fst ` set (subscribers ?y) = {symbols w} \<union> fst ` set (subscribers (slots w ! s))"
        by (simp add: dom_update)
      then have "fst ` set (subscribers ?y) \<subseteq> insert (symbols w) (set (registered w))"
        using slot_tokens_registered [OF True] by blast
      with registered_update_subset [OF w'(1,2)]
      have "set (registered (exec c w)) \<subseteq> insert (symbols w) (set (registered w))" by blast
      then show ?thesis using w' by simp
    qed
  next
    case (Value_unsubscribe sub)
    let ?s = "vs_slot sub"
    let ?w' = "snd (CacheValue_unsubscribe sub w)"
    let ?y = "(slots w ! ?s)\<lparr>subscribers := AList.delete (vs_symbol sub) (subscribers (slots w ! ?s))\<rparr>"
    from unsubscribe_registry(1) [of sub w] show ?thesis
    proof
      assume a: "?s < length (slots w) \<and> slots ?w' = (slots w)[?s := ?y]"
      have "fst ` set (subscribers ?y) \<subseteq> fst ` set (subscribers (slots w ! ?s))"
        by (simp add: keys_delete)
      also have "\<dots> \<subseteq> set (registered w)" using slot_tokens_registered a by blast
      finally have k: "fst ` set (subscribers ?y) \<subseteq> set (registered w)" .
      have "set (registered ?w') \<subseteq> set (registered w) \<union> fst ` set (subscribers ?y)"
        using a by (intro registered_update_subset unsubscribe_registry(2)) simp
      with k have "set (registered ?w') \<subseteq> set (registered w)" by blast
      then have 1: "set (registered ?w') \<subseteq> insert (symbols w) (set (registered w))" by blast
      have 2: "length (slots ?w') = length (slots w)" using a by simp
      show ?thesis unfolding Value_unsubscribe exec.simps
        by (rule registry_facts [OF 1 _ 2]) (simp add: unsubscribe_registry(3))
    next
      assume a: "slots ?w' = slots w"
      show ?thesis
        by (rule same) (simp add: Value_unsubscribe a unsubscribe_registry(2,3))
    qed
  next
    case (Value_unsubscribeAll s)
    show ?thesis
    proof (cases "s < length (slots w)")
      case False
      then show ?thesis using Value_unsubscribeAll by (auto simp: unsubscribeAll_none)
    next
      case True
      show ?thesis
      proof (cases "pass_result True (subscribers (slots w ! s))")
        case (Inl e)
        show ?thesis
          by (rule same) (use True Inl Value_unsubscribeAll in \<open>simp add: unsubscribeAll_eq\<close>)
      next
        case (Inr x)
        let ?y = "(slots w ! s)\<lparr>subscribers := []\<rparr>"
        have w': "slots (exec c w) = (slots w)[s := ?y]"
          "cache_subscribers (exec c w) = cache_subscribers w"
          "symbols (exec c w) = symbols w"
          using True Inr Value_unsubscribeAll by (simp_all add: unsubscribeAll_eq)
        from registered_update_subset [OF w'(1,2)]
        have "set (registered (exec c w)) \<subseteq> insert (symbols w) (set (registered w))"
          by auto
        then show ?thesis using w' by simp
      qed
    qed
  next
    case (Value_unwrapCurrent s hs)
    show ?thesis
      by (rule same [OF exec_registry_same [where c = c and s = s and hs = hs]])
        (simp add: Value_unwrapCurrent)
  next
    case (Value_unwrapPrevious s hs)
    show ?thesis
      by (rule same [OF exec_registry_same [where c = c and s = s and hs = hs]])
        (simp add: Value_unwrapPrevious)
  next
    case (Object_new obj)
    show ?thesis
      by (rule same [OF exec_registry_same [where c = c and obj = obj]]) (simp add: Object_new)
  next
    case (Object_write a obj)
    show ?thesis
      by (rule same [OF exec_registry_same [where c = c and a = a and obj = obj]])
        (simp add: Object_write)
  next
    case (Elapse d)
    show ?thesis
      by (rule same [OF exec_registry_same [where c = c and d = d]]) (simp add: Elapse)
  qed
qed

lemma exec_unused:
  assumes "tok < symbols w" "tok \<notin> set (registered w)"
  shows "tok < symbols (exec c w)" "tok \<notin> set (registered (exec c w))"
  using assms exec_registered [of c w] by auto

lemma run_tokens:
  assumes "tok < symbols w" "tok \<notin> set (registered w)" "\<forall>c\<in>set cs. \<not> unsubscribes tok c"
  shows "filter (for_token tok) (trace (run cs w)) = filter (for_token tok) (trace w)
    \<and> tok < symbols (run cs w) \<and> tok \<notin> set (registered (run cs w))"
  using assms
proof (induction cs arbitrary: w)
  case Nil
  then show ?case by (simp add: run_def)
next
  case (Cons c cs)
  have c: "\<not> unsubscribes tok c" and cs: "\<forall>c\<in>set cs. \<not> unsubscribes tok c"
    using Cons.prems(3) by simp_all
  note U = exec_unused [OF Cons.prems(1,2), of c]
  from Cons.IH [OF U cs] exec_tokens [OF Cons.prems(2) c]
  show ?case by (simp add: run_def)
qed

lemma run_slots: "length (slots w) \<le> length (slots (run cs w))"
proof (induction cs arbitrary: w)
  case Nil
  show ?case by (simp add: run_def)
next
  case (Cons c cs)
  have "length (slots w) \<le> length (slots (exec c w))" using exec_registered [of c w] by simp
  also have "\<dots> \<le> length (slots (run cs (exec c w)))" by (rule Cons.IH)
  finally show ?case by (simp add: run_def)
qed

lemma disjoint_slots_lt:
  assumes u: "unique_tokens w" and s: "s1 < s2" "s2 < length (slots w)"
  shows "fst ` set (subscribers (slots w ! s1)) \<inter> fst ` set (subscribers (slots w ! s2)) = {}"
proof -
  let ?P = "concat (map slot_tokens (take s2 (slots w)))"
  have "slots w = take s2 (slots w) @ slots w ! s2 # drop (Suc s2) (slots w)"
    using s(2) by (simp add: id_take_nth_drop [symmetric])
  then have "concat (map slot_tokens (slots w))
      = concat (map slot_tokens (take s2 (slots w) @ slots w ! s2 # drop (Suc s2) (slots w)))"
    by simp
  then have r: "registered w = map fst (cache_subscribers w) @ ?P @ slot_tokens (slots w ! s2)
                  @ concat (map slot_tokens (drop (Suc s2) (slots w)))"
    by (simp add: registered_def)
  have "distinct (registered w)" using u by (simp add: unique_tokens_def)
  then have d: "set ?P \<inter> set (slot_tokens (slots w ! s2)) = {}"
    unfolding r by auto
  have "slots w ! s1 = take s2 (slots w) ! s1" using s by simp
  moreover have "s1 < length (take s2 (slots w))" using s by simp
  ultimately have "slots w ! s1 \<in> set (take s2 (slots w))" by (metis nth_mem)
  then have "set (slot_tokens (slots w ! s1)) \<subseteq> set ?P" by auto
  with d have "set (slot_tokens (slots w ! s1)) \<inter> set (slot_tokens (slots w ! s2)) = {}"
    by blast
  then show ?thesis by (simp add: slot_tokens_def)
qed

lemma disjoint_slots:
  assumes "unique_tokens w" "s1 \<noteq> s2" "s1 < length (slots w)" "s2 < length (slots w)"
  shows "fst ` set (subscribers (slots w ! s1)) \<inter> fst ` set (subscribers (slots w ! s2)) = {}"
proof (cases "s1 < s2")
  case True
  then show ?thesis using disjoint_slots_lt [OF assms(1) True assms(4)] by simp
next
  case False
  then have "s2 < s1" using assms(2) by simp
  from disjoint_slots_lt [OF assms(1) this assms(3)] show ?thesis by blast
qed

lemma unsubscribe_live:
  assumes s: "s < length (slots w)" and ok: "\<not> throwing True (tok, h)"
  shows "CacheValue_unsubscribe \<lparr>vs_slot = s, vs_symbol = tok, vs_handlers = h\<rparr> w =
     (Inr (),
      w\<lparr>slots := (slots w)[s := (slots w ! s)
             \<lparr>subscribers := AList.delete tok (subscribers (slots w ! s))\<rparr>],
        trace := trace w @ event_of True s (tok, h)\<rparr>)"
  using assms
  by (auto simp: unsubscribe_eq throwing_def event_of_def handler_of_def split: option.splits)

lemma unsubscribed_unused:
  assumes u: "unique_tokens w" and s: "s < length (slots w)"
    and live: "(tok, h) \<in> set (subscribers (slots w ! s))"
    and w': "slots w' = (slots w)[s := (slots w ! s)
               \<lparr>subscribers := AList.delete tok (subscribers (slots w ! s))\<rparr>]"
      "cache_subscribers w' = cache_subscribers w" "symbols w' = symbols w"
  shows "tok < symbols w'" "tok \<notin> set (registered w')"
proof -
  let ?y = "(slots w ! s)\<lparr>subscribers := AList.delete tok (subscribers (slots w ! s))\<rparr>"
  from registered_slot_update [OF s w'(1,2)] obtain A B where
    r: "registered w = A @ slot_tokens (slots w ! s) @ B" "registered w' = A @ slot_tokens ?y @ B"
    by blast
  have t: "tok \<in> set (slot_tokens (slots w ! s))"
    using live by (force simp: slot_tokens_def)
  have d: "distinct (A @ slot_tokens (slots w ! s) @ B)"
    using u r(1) by (simp add: unique_tokens_def)
  have ab: "tok \<notin> set A" "tok \<notin> set B" using d t by auto
  have y: "slot_tokens ?y = removeAll tok (slot_tokens (slots w ! s))"
    by (simp add: slot_tokens_def delete_keys)
  show "tok \<notin> set (registered w')" unfolding r(2) y using ab by simp
  have "tok \<in> set (registered w)" unfolding r(1) using t by simp
  then show "tok < symbols w'" using u w'(3) by (simp add: unique_tokens_def list_all_iff)
qed

lemma cache_unsubscribed_unused:
  assumes u: "unique_tokens w" and live: "(tok, h) \<in> set (cache_subscribers w)"
  shows "tok < symbols (CacheIt_unsubscribe (CacheSubscription tok) w)"
    "tok \<notin> set (registered (CacheIt_unsubscribe (CacheSubscription tok) w))"
proof -
  let ?w' = "CacheIt_unsubscribe (CacheSubscription tok) w"
  have t: "tok \<in> set (map fst (cache_subscribers w))" using live by force
  have d: "distinct (map fst (cache_subscribers w) @ concat (map slot_tokens (slots w)))"
    using u by (simp add: unique_tokens_def registered_def)
  have c: "tok \<notin> set (concat (map slot_tokens (slots w)))" using d t by auto
  have "registered ?w' = removeAll tok (map fst (cache_subscribers w))
           @ concat (map slot_tokens (slots w))"
    by (simp add: registered_def CacheIt_unsubscribe_def delete_keys)
  then show "tok \<notin> set (registered ?w')" using c by simp
  have "tok \<in> set (registered w)" using t by (simp add: registered_def)
  then show "tok < symbols ?w'"
    using u by (simp add: unique_tokens_def list_all_iff CacheIt_unsubscribe_def)
qed

lemma set_slots:
  "slots (snd (CacheIt_set key v ttl w))
     = slots w @ [\<lparr>current = fst (stored v (heap w)), previous = Undefined, subscribers = []\<rparr>]"
  "CacheIt_get key (snd (CacheIt_set key v ttl w)) = Some (length (slots w))"
  "filter is_slot_event (trace (snd (CacheIt_set key v ttl w))) = filter is_slot_event (trace w)"
  "fst (CacheIt_set key v ttl w) = Inr (length (slots w)) \<or> isl (fst (CacheIt_set key v ttl w))"
  by (simp_all add: set_eq CacheIt_get_def update_conv' cache_events_not_slot split: sum.split)

lemma fire_slot_tokens:
  "tok \<notin> fst ` set (subscribers (slots u ! s)) \<Longrightarrow>
   filter (for_token tok) (trace (fire (dl, s) u)) = filter (for_token tok) (trace u)"
  by (simp add: fire_def update_tokens)

subsection \<open>Isolation and presence\<close>

text \<open>
  The write side of the isolation: \<^verbatim>\<open>update\<close> stores a new object, not the caller's,
  so a later write to the caller's object does not reach the slot.
\<close>

lemma update_copies_on_write:
  assumes "s < length (slots w)" and "a < length (heap w)"
  shows "\<exists>a'. current (slots (snd (CacheValue_update s (JRef a) w)) ! s) = JRef a'
           \<and> length (heap w) \<le> a'
           \<and> deref (heap_write a obj (snd (CacheValue_update s (JRef a) w))) (JRef a')
               = Some (heap w ! a)"
  using assms
  by (cases "current (slots w ! s)")
    (auto simp: update_eq Let_def stored_cases deref_def heap_write_def nth_append)

text \<open>
  The handler form of the unwraps tests truthiness: it calls \<^verbatim>\<open>onPresent\<close> exactly for
  the truthy values, \<^verbatim>\<open>onAbsent\<close> for all the others.
\<close>

lemma unwrap_tests_truthiness:
  assumes "s < length (slots w)"
  shows "trace (snd (CacheValue_unwrapCurrent s (Some hs) w)) =
           trace w @
             (if truthy (current (slots w ! s))
              then (case onPresent hs of None \<Rightarrow> []
                    | Some cb \<Rightarrow> [OnPresentCalled (cb_id cb) (current (slots w ! s))])
              else (case onAbsent hs of None \<Rightarrow> [] | Some cb \<Rightarrow> [OnAbsentCalled (cb_id cb)]))"
    and "trace (snd (CacheValue_unwrapPrevious s (Some hs) w)) =
           trace w @
             (if truthy (previous (slots w ! s))
              then (case onPresent hs of None \<Rightarrow> []
                    | Some cb \<Rightarrow> [OnPresentCalled (cb_id cb) (previous (slots w ! s))])
              else (case onAbsent hs of None \<Rightarrow> [] | Some cb \<Rightarrow> [OnAbsentCalled (cb_id cb)]))"
  using assms
  by (auto simp: CacheValue_unwrapCurrent_def CacheValue_unwrapPrevious_def slot_at_def
        optional_call_eq split: option.splits sum.splits)


lemma unsubscribe_throws:
  "h_complete h = Some cb \<Longrightarrow> cb_throws cb \<Longrightarrow>
   CacheValue_unsubscribe \<lparr>vs_slot = s, vs_symbol = tok, vs_handlers = h\<rparr> w =
     (Inl (HandlerError (cb_id cb)), w\<lparr>trace := trace w @ [CompleteCalled tok (cb_id cb)]\<rparr>)"
  by (simp add: unsubscribe_eq)

section \<open>The claims\<close>

text \<open>
  C1, at the input where it fails.  An object is stored under a key.  The no-argument
  \<^verbatim>\<open>unwrapCurrent()\<close> returns the reference held in the slot (address 1, the copy made
  by \<^verbatim>\<open>update\<close>, not the caller's object at address 0), and the handler form passes
  the same reference to \<^verbatim>\<open>onPresent\<close>.  Writing to the returned object changes what the
  slot holds: the value returned to the caller is not a copy.
\<close>

theorem returned_object_is_the_stored_one:
  "fst (CacheValue_unwrapCurrent 0 None object_world) = Inr (JRef 1)
   \<and> deref object_world (JRef 1) = Some [(''test'', DStr ''test'')]
   \<and> fst (CacheValue_unwrapCurrent 0 None
            (heap_write 1 [(''test'', DStr ''updated'')] object_world)) = Inr (JRef 1)
   \<and> deref (heap_write 1 [(''test'', DStr ''updated'')] object_world) (JRef 1)
       = Some [(''test'', DStr ''updated'')]
   \<and> trace (snd (CacheValue_unwrapCurrent 0 (Some both_handlers) object_world))
       = [OnPresentCalled 1 (JRef 1)]"
  by (simp add: object_world_def both_handlers_def eval_defs)

text \<open>
  C2, at the inputs where it fails.  A slot whose current value is the number zero:
  \<^verbatim>\<open>unwrapCurrent()\<close> returns zero, a defined value, and the handler form calls
  \<^verbatim>\<open>onAbsent\<close> (callback 2), not \<^verbatim>\<open>onPresent\<close> (callback 1).  The same for a slot whose
  previous value is the empty string and \<^verbatim>\<open>unwrapPrevious\<close>.
\<close>

theorem falsy_value_reported_absent:
  "fst (CacheValue_unwrapCurrent 0 None zero_world) = Inr (JNum 0)
   \<and> trace (snd (CacheValue_unwrapCurrent 0 (Some both_handlers) zero_world))
       = [OnAbsentCalled 2]
   \<and> fst (CacheValue_unwrapPrevious 0 None empty_string_world) = Inr (JStr [])
   \<and> trace (snd (CacheValue_unwrapPrevious 0 (Some both_handlers) empty_string_world))
       = [OnAbsentCalled 2]"
  by (simp add: zero_world_def empty_string_world_def both_handlers_def eval_defs)

text \<open>
  C3, as stated, fails for a slot subscription, in two ways.  A subscriber with a
  \<^verbatim>\<open>complete\<close> handler (callback 7) cancels twice: the second \<^verbatim>\<open>unsubscribe()\<close>
  returns, leaves the slot as it is, and calls \<^verbatim>\<open>complete\<close> a second time.  A
  subscriber whose \<^verbatim>\<open>complete\<close> handler throws (callback 8) cancels once:
  \<^verbatim>\<open>unsubscribe()\<close> throws before the entry is removed, and the next \<^verbatim>\<open>update\<close> calls
  its \<^verbatim>\<open>next\<close> handler (callback 1) again.
\<close>

theorem unsubscribe_twice_or_throwing_counterexample:
  "fst (CacheValue_subscribe 0 completing one_world) = Inr the_subscription
   \<and> trace subscribed_world = []
   \<and> trace (snd (CacheValue_unsubscribe the_subscription subscribed_world))
       = [CompleteCalled 0 7]
   \<and> CacheValue_unsubscribe the_subscription
        (snd (CacheValue_unsubscribe the_subscription subscribed_world))
       = (Inr (), (snd (CacheValue_unsubscribe the_subscription subscribed_world))
                    \<lparr>trace := [CompleteCalled 0 7, CompleteCalled 0 7]\<rparr>)
   \<and> fst (CacheValue_subscribe 0 failing_completion one_world) = Inr failing_subscription
   \<and> trace failing_world = []
   \<and> CacheValue_unsubscribe failing_subscription failing_world
       = (Inl (HandlerError 8), failing_world\<lparr>trace := [CompleteCalled 0 8]\<rparr>)
   \<and> trace (snd (CacheValue_update 0 (JNum 2)
                   (snd (CacheValue_unsubscribe failing_subscription failing_world))))
       = [CompleteCalled 0 8, NextCalled 0 1 0]"
  by (simp add: subscribed_world_def the_subscription_def completing_def one_world_def
        failing_world_def failing_subscription_def failing_completion_def eval_defs)

text \<open>
  C3, amended, in five parts, each under its own conditions.  Slot: in a world where
  no symbol is registered twice, \<^verbatim>\<open>unsubscribe()\<close> of a live subscription whose
  \<^verbatim>\<open>complete\<close> handler, if there is one, does not throw returns, calls \<^verbatim>\<open>complete\<close> if
  present, and removes the entry; whatever calls follow, other than \<^verbatim>\<open>unsubscribe()\<close>
  of this subscription, no handler of the subscription is called again; a second
  \<^verbatim>\<open>unsubscribe()\<close> returns and leaves the slots as they are, but calls \<^verbatim>\<open>complete\<close>
  again, so the completion callback is called once per call of \<^verbatim>\<open>unsubscribe()\<close>.
  Slot, throwing: when the \<^verbatim>\<open>complete\<close> handler throws, \<^verbatim>\<open>unsubscribe()\<close> throws its
  exception and the world is as before but for the trace, the entry still
  registered.  Cache: after \<^verbatim>\<open>unsubscribe()\<close> of a live cache subscription the handler
  is never called again.  In every world \<^verbatim>\<open>unsubscribe()\<close> of a cache subscription
  removes its entry, and a second call changes nothing.
\<close>

theorem unsubscribed_handler_not_notified:
  "(unique_tokens w \<and> s < length (slots w) \<and> (tok, h) \<in> set (subscribers (slots w ! s))
      \<and> \<not> throwing True (tok, h) \<and> (\<forall>c\<in>set cs. \<not> unsubscribes tok c)
      \<and> sub = \<lparr>vs_slot = s, vs_symbol = tok, vs_handlers = h\<rparr>
    \<longrightarrow> fst (CacheValue_unsubscribe sub w) = Inr ()
        \<and> trace (snd (CacheValue_unsubscribe sub w)) = trace w @ event_of True s (tok, h)
        \<and> tok \<notin> fst ` set (subscribers (slots (snd (CacheValue_unsubscribe sub w)) ! s))
        \<and> filter (for_token tok) (trace (run cs (snd (CacheValue_unsubscribe sub w))))
            = filter (for_token tok) (trace (snd (CacheValue_unsubscribe sub w)))
        \<and> fst (CacheValue_unsubscribe sub (snd (CacheValue_unsubscribe sub w))) = Inr ()
        \<and> slots (snd (CacheValue_unsubscribe sub (snd (CacheValue_unsubscribe sub w))))
            = slots (snd (CacheValue_unsubscribe sub w))
        \<and> trace (snd (CacheValue_unsubscribe sub (snd (CacheValue_unsubscribe sub w))))
            = trace (snd (CacheValue_unsubscribe sub w)) @ event_of True s (tok, h))
   \<and> (h_complete h' = Some cb \<and> cb_throws cb
    \<longrightarrow> CacheValue_unsubscribe \<lparr>vs_slot = s', vs_symbol = tok', vs_handlers = h'\<rparr> w
          = (Inl (HandlerError (cb_id cb)),
             w\<lparr>trace := trace w @ [CompleteCalled tok' (cb_id cb)]\<rparr>))
   \<and> (unique_tokens w \<and> (ctok, ch) \<in> set (cache_subscribers w)
      \<and> (\<forall>c\<in>set cs'. \<not> unsubscribes ctok c)
    \<longrightarrow> filter (for_token ctok)
          (trace (run cs' (CacheIt_unsubscribe (CacheSubscription ctok) w)))
         = filter (for_token ctok) (trace w))
   \<and> ctok \<notin> fst ` set (cache_subscribers (CacheIt_unsubscribe (CacheSubscription ctok) w))
   \<and> CacheIt_unsubscribe csub (CacheIt_unsubscribe csub w) = CacheIt_unsubscribe csub w"
proof -
  have slot: "fst (CacheValue_unsubscribe sub w) = Inr ()
        \<and> trace (snd (CacheValue_unsubscribe sub w)) = trace w @ event_of True s (tok, h)
        \<and> tok \<notin> fst ` set (subscribers (slots (snd (CacheValue_unsubscribe sub w)) ! s))
        \<and> filter (for_token tok) (trace (run cs (snd (CacheValue_unsubscribe sub w))))
            = filter (for_token tok) (trace (snd (CacheValue_unsubscribe sub w)))
        \<and> fst (CacheValue_unsubscribe sub (snd (CacheValue_unsubscribe sub w))) = Inr ()
        \<and> slots (snd (CacheValue_unsubscribe sub (snd (CacheValue_unsubscribe sub w))))
            = slots (snd (CacheValue_unsubscribe sub w))
        \<and> trace (snd (CacheValue_unsubscribe sub (snd (CacheValue_unsubscribe sub w))))
            = trace (snd (CacheValue_unsubscribe sub w)) @ event_of True s (tok, h)"
    if u: "unique_tokens w" and s: "s < length (slots w)"
      and live: "(tok, h) \<in> set (subscribers (slots w ! s))"
      and ok: "\<not> throwing True (tok, h)"
      and cs: "\<forall>c\<in>set cs. \<not> unsubscribes tok c"
      and sub: "sub = \<lparr>vs_slot = s, vs_symbol = tok, vs_handlers = h\<rparr>"
  proof -
    let ?y = "(slots w ! s)\<lparr>subscribers := AList.delete tok (subscribers (slots w ! s))\<rparr>"
    let ?w1 = "snd (CacheValue_unsubscribe sub w)"
    have e1: "CacheValue_unsubscribe sub w =
       (Inr (), w\<lparr>slots := (slots w)[s := ?y], trace := trace w @ event_of True s (tok, h)\<rparr>)"
      unfolding sub by (rule unsubscribe_live [OF s ok])
    have w1: "slots ?w1 = (slots w)[s := ?y]" "cache_subscribers ?w1 = cache_subscribers w"
      "symbols ?w1 = symbols w" "trace ?w1 = trace w @ event_of True s (tok, h)"
      by (simp_all add: e1)
    have s1: "s < length (slots ?w1)" using s by (simp add: w1)
    have gone: "tok \<notin> fst ` set (subscribers (slots ?w1 ! s))"
      using s by (simp add: w1 delete_notin_dom)
    note un = unsubscribed_unused [OF u s live w1(1,2,3)]
    have never: "filter (for_token tok) (trace (run cs ?w1)) = filter (for_token tok) (trace ?w1)"
      using run_tokens [OF un cs] by simp
    have e2: "CacheValue_unsubscribe sub ?w1 =
       (Inr (), ?w1\<lparr>slots := (slots ?w1)[s := (slots ?w1 ! s)
                       \<lparr>subscribers := AList.delete tok (subscribers (slots ?w1 ! s))\<rparr>],
                    trace := trace ?w1 @ event_of True s (tok, h)\<rparr>)"
      unfolding sub by (rule unsubscribe_live [OF s1 [unfolded sub] ok])
    have idem: "(slots ?w1)[s := (slots ?w1 ! s)
                    \<lparr>subscribers := AList.delete tok (subscribers (slots ?w1 ! s))\<rparr>] = slots ?w1"
      using s by (simp add: w1 delete_idem)
    have second: "fst (CacheValue_unsubscribe sub ?w1) = Inr ()"
      "slots (snd (CacheValue_unsubscribe sub ?w1)) = slots ?w1"
      "trace (snd (CacheValue_unsubscribe sub ?w1)) = trace ?w1 @ event_of True s (tok, h)"
      using idem by (simp_all add: e2)
    show ?thesis using e1 w1(4) gone never second by simp
  qed
  have thr: "CacheValue_unsubscribe \<lparr>vs_slot = s', vs_symbol = tok', vs_handlers = h'\<rparr> w
          = (Inl (HandlerError (cb_id cb)),
             w\<lparr>trace := trace w @ [CompleteCalled tok' (cb_id cb)]\<rparr>)"
    if "h_complete h' = Some cb" "cb_throws cb"
    using that by (rule unsubscribe_throws)
  let ?c1 = "CacheIt_unsubscribe (CacheSubscription ctok) w"
  have cnever: "filter (for_token ctok) (trace (run cs' ?c1)) = filter (for_token ctok) (trace w)"
    if u: "unique_tokens w" and clive: "(ctok, ch) \<in> set (cache_subscribers w)"
      and cs2: "\<forall>c\<in>set cs'. \<not> unsubscribes ctok c"
  proof -
    note cun = cache_unsubscribed_unused [OF u clive]
    have ctr: "trace ?c1 = trace w" by (simp add: CacheIt_unsubscribe_def)
    show ?thesis using run_tokens [OF cun cs2] ctr by simp
  qed
  have cgone: "ctok \<notin> fst ` set (cache_subscribers ?c1)"
    by (simp add: CacheIt_unsubscribe_def delete_notin_dom)
  have cidem: "CacheIt_unsubscribe csub (CacheIt_unsubscribe csub w) = CacheIt_unsubscribe csub w"
    by (simp add: CacheIt_unsubscribe_def delete_idem)
  show ?thesis using slot thr cnever cgone cidem by blast
qed

theorem unsubscribed_handler_not_notified_witness:
  "unique_tokens subscribed_world
   \<and> 0 < length (slots subscribed_world)
   \<and> (0, completing) \<in> set (subscribers (slots subscribed_world ! 0))
   \<and> \<not> throwing True (0, completing)
   \<and> (1, Callback 3 False) \<in> set (cache_subscribers subscribed_world)
   \<and> h_complete failing_completion = Some (Callback 8 True)
   \<and> fst (CacheValue_unsubscribe the_subscription subscribed_world) = Inr ()
   \<and> trace (snd (CacheValue_unsubscribe the_subscription subscribed_world))
       = [CompleteCalled 0 7]
   \<and> filter (for_token 0)
        (trace (run [Value_update 0 (JNum 5), Cache_set ''j'' (JNum 2) None, Value_clear 0, Elapse 3]
                  (snd (CacheValue_unsubscribe the_subscription subscribed_world))))
       = [CompleteCalled 0 7]
   \<and> trace (snd (CacheValue_unsubscribe the_subscription
                   (snd (CacheValue_unsubscribe the_subscription subscribed_world))))
       = [CompleteCalled 0 7, CompleteCalled 0 7]
   \<and> CacheValue_unsubscribe \<lparr>vs_slot = 0, vs_symbol = 9, vs_handlers = failing_completion\<rparr>
        subscribed_world
       = (Inl (HandlerError 8), subscribed_world\<lparr>trace := [CompleteCalled 9 8]\<rparr>)
   \<and> filter (for_token 1)
        (trace (run [Value_update 0 (JNum 5), Cache_set ''j'' (JNum 2) None, Value_clear 0, Elapse 3]
                  (CacheIt_unsubscribe (CacheSubscription 1) subscribed_world)))
       = []"
proof -
  have f: "slots subscribed_world = [\<lparr>current = JNum 1, previous = Undefined,
                                      subscribers = [(0, completing)]\<rparr>]"
    "cache_subscribers subscribed_world = [(1, Callback 3 False)]"
    "symbols subscribed_world = 2" "trace subscribed_world = []"
    by (simp_all add: subscribed_world_def one_world_def eval_defs)
  have h1: "unique_tokens subscribed_world"
    by (simp add: unique_tokens_def registered_def slot_tokens_def f)
  have h2: "0 < length (slots subscribed_world)" by (simp add: f)
  have h3: "(0, completing) \<in> set (subscribers (slots subscribed_world ! 0))" by (simp add: f)
  have h4: "\<not> throwing True (0, completing)"
    by (simp add: throwing_def handler_of_def completing_def)
  have h5: "the_subscription = \<lparr>vs_slot = 0, vs_symbol = 0, vs_handlers = completing\<rparr>"
    by (simp add: the_subscription_def)
  have h6: "(1, Callback 3 False) \<in> set (cache_subscribers subscribed_world)" by (simp add: f)
  have h7: "\<forall>c\<in>set [Value_update 0 (JNum 5), Cache_set ''j'' (JNum 2) None, Value_clear 0, Elapse 3].
              \<not> unsubscribes 0 c"
    "\<forall>c\<in>set [Value_update 0 (JNum 5), Cache_set ''j'' (JNum 2) None, Value_clear 0, Elapse 3].
              \<not> unsubscribes 1 c"
    by simp_all
  have h8: "h_complete failing_completion = Some (Callback 8 True)"
    "cb_throws (Callback 8 True)"
    by (simp_all add: failing_completion_def)
  have ev: "event_of True 0 (0, completing) = [CompleteCalled 0 7]"
    by (simp add: event_of_def handler_of_def completing_def)
  note T = unsubscribed_handler_not_notified [where w = subscribed_world and s = 0 and tok = 0
      and h = completing and sub = the_subscription and ctok = 1 and ch = "Callback 3 False"
      and cs = "[Value_update 0 (JNum 5), Cache_set ''j'' (JNum 2) None, Value_clear 0, Elapse 3]"
      and cs' = "[Value_update 0 (JNum 5), Cache_set ''j'' (JNum 2) None, Value_clear 0, Elapse 3]"
      and h' = failing_completion and cb = "Callback 8 True" and s' = 0 and tok' = 9]
  have slot: "fst (CacheValue_unsubscribe the_subscription subscribed_world) = Inr ()"
    "trace (snd (CacheValue_unsubscribe the_subscription subscribed_world)) = [CompleteCalled 0 7]"
    "filter (for_token 0)
        (trace (run [Value_update 0 (JNum 5), Cache_set ''j'' (JNum 2) None, Value_clear 0, Elapse 3]
                  (snd (CacheValue_unsubscribe the_subscription subscribed_world))))
       = [CompleteCalled 0 7]"
    "trace (snd (CacheValue_unsubscribe the_subscription
                   (snd (CacheValue_unsubscribe the_subscription subscribed_world))))
       = [CompleteCalled 0 7, CompleteCalled 0 7]"
    using T h1 h2 h3 h4 h5 h7(1) by (simp_all add: ev f for_token_def)
  have thr: "CacheValue_unsubscribe \<lparr>vs_slot = 0, vs_symbol = 9, vs_handlers = failing_completion\<rparr>
        subscribed_world
       = (Inl (HandlerError 8), subscribed_world\<lparr>trace := [CompleteCalled 9 8]\<rparr>)"
    using T h8 by (simp add: f)
  have cache: "filter (for_token 1)
        (trace (run [Value_update 0 (JNum 5), Cache_set ''j'' (JNum 2) None, Value_clear 0, Elapse 3]
                  (CacheIt_unsubscribe (CacheSubscription 1) subscribed_world)))
       = []"
    using T h1 h6 h7(2) by (simp add: f)
  show ?thesis using h1 h2 h3 h4 h6 h8(1) slot thr cache by simp
qed







text \<open>
  C6, as stated, fails.  A slot has three subscribers, the second of which throws; the
  cache has three subscribers, the second of which throws.  An update of the slot
  ends with the exception of the second handler and the third handler (callback 3)
  is not called; the same for \<^verbatim>\<open>clear()\<close> of the cache and callback 6.
\<close>

theorem throwing_handler_counterexample:
  "map fst (subscribers (slots throwing_world ! 0)) = [0, 1, 2]
   \<and> trace throwing_world = []
   \<and> fst (CacheValue_update 0 (JNum 2) throwing_world) = Inl (HandlerError 2)
   \<and> trace (snd (CacheValue_update 0 (JNum 2) throwing_world))
       = [NextCalled 0 1 0, NextCalled 1 2 0]
   \<and> map fst (cache_subscribers throwing_world) = [3, 4, 5]
   \<and> fst (CacheIt_clear throwing_world) = Inl (HandlerError 5)
   \<and> trace (snd (CacheIt_clear throwing_world))
       = [CacheHandlerCalled 3 4, CacheHandlerCalled 4 5]"
  by (simp add: throwing_world_def one_world_def listener_def thrower_def eval_defs)

text \<open>
  C6, amended.  In a notification pass, of a slot or of the cache, the handlers are
  called in subscription order.  When a handler throws, the handlers before it and
  the throwing one have been called, the exception leaves the pass and the handlers
  after it are not called in that pass.  The world is the one before the pass but
  for the trace: the subscriber maps are what they were.
\<close>

theorem throwing_handler_ends_the_pass:
  "(s < length (slots w) \<and> subscribers (slots w ! s) = pre @ p # post
      \<and> (\<forall>q\<in>set pre. \<not> throwing c q) \<and> handler_of c (snd p) = Some cb \<and> cb_throws cb
     \<longrightarrow> CacheValue_notifySubscribers s c w =
           (Inl (HandlerError (cb_id cb)),
            w\<lparr>trace := trace w @ concat (map (event_of c s) pre) @ event_of c s p\<rparr>))
   \<and> (cache_subscribers w = cpre @ cp # cpost
      \<and> (\<forall>q\<in>set cpre. \<not> cb_throws (snd q)) \<and> cb_throws (snd cp)
     \<longrightarrow> CacheIt_notifySubscribers w =
           (Inl (HandlerError (cb_id (snd cp))),
            w\<lparr>trace := trace w @ map cache_event_of cpre @ [cache_event_of cp]\<rparr>))"
  by (auto simp: notify_value_eq notify_cache_eq pass_events_def reached_split
        pass_result_split cache_reached_split cache_pass_result_split throwing_def)

theorem throwing_handler_ends_the_pass_witness:
  "0 < length (slots throwing_world)
   \<and> subscribers (slots throwing_world ! 0) = [(0, listener 1)] @ (1, thrower 2) # [(2, listener 3)]
   \<and> \<not> throwing False (0, listener 1)
   \<and> handler_of False (snd (1, thrower 2)) = Some (Callback 2 True)
   \<and> cb_throws (Callback 2 True)
   \<and> cache_subscribers throwing_world
       = [(3, Callback 4 False)] @ (4, Callback 5 True) # [(5, Callback 6 False)]
   \<and> \<not> cb_throws (snd (3, Callback 4 False))
   \<and> cb_throws (snd (4, Callback 5 True))
   \<and> CacheValue_notifySubscribers 0 False throwing_world =
        (Inl (HandlerError 2),
         throwing_world\<lparr>trace := [NextCalled 0 1 0, NextCalled 1 2 0]\<rparr>)
   \<and> CacheIt_notifySubscribers throwing_world =
        (Inl (HandlerError 5),
         throwing_world\<lparr>trace := [CacheHandlerCalled 3 4, CacheHandlerCalled 4 5]\<rparr>)"
proof -
  have h1: "0 < length (slots throwing_world)"
    by (simp add: throwing_world_def one_world_def eval_defs)
  have h2: "subscribers (slots throwing_world ! 0)
              = [(0, listener 1)] @ (1, thrower 2) # [(2, listener 3)]"
    by (simp add: throwing_world_def one_world_def eval_defs)
  have h3: "\<forall>q\<in>set [(0, listener 1)]. \<not> throwing False q"
    by (simp add: throwing_def handler_of_def listener_def)
  have h4: "handler_of False (snd (1, thrower 2)) = Some (Callback 2 True)"
    by (simp add: handler_of_def thrower_def)
  have h5: "cb_throws (Callback 2 True)" by simp
  have h6: "cache_subscribers throwing_world
              = [(3, Callback 4 False)] @ (4, Callback 5 True) # [(5, Callback 6 False)]"
    by (simp add: throwing_world_def one_world_def eval_defs)
  have h7: "\<forall>q\<in>set [(3, Callback 4 False)]. \<not> cb_throws (snd q)" by simp
  have h8: "cb_throws (snd (4, Callback 5 True))" by simp
  have t: "trace throwing_world = []"
    by (simp add: throwing_world_def one_world_def eval_defs)
  note T = throwing_handler_ends_the_pass [of 0 throwing_world "[(0, listener 1)]"
      "(1, thrower 2)" "[(2, listener 3)]" False "Callback 2 True"
      "[(3, Callback 4 False)]" "(4, Callback 5 True)" "[(5, Callback 6 False)]"]
  have c1: "CacheValue_notifySubscribers 0 False throwing_world =
        (Inl (HandlerError 2),
         throwing_world\<lparr>trace := [NextCalled 0 1 0, NextCalled 1 2 0]\<rparr>)"
    using T h1 h2 h3 h4 h5
    by (simp add: t event_of_def handler_of_def listener_def thrower_def)
  have c2: "CacheIt_notifySubscribers throwing_world =
        (Inl (HandlerError 5),
         throwing_world\<lparr>trace := [CacheHandlerCalled 3 4, CacheHandlerCalled 4 5]\<rparr>)"
    using T h6 h7 h8 by (simp add: t cache_event_of_def)
  show ?thesis using h1 h2 h3 h4 h5 h6 h7 h8 c1 c2 by simp
qed

text \<open>
  C7, as stated, fails.  The cache has three subscribers, the second of which
  throws.  A \<^verbatim>\<open>clear\<close> calls the first two and not the third (callback 6); after three
  mutating calls, a \<^verbatim>\<open>set\<close>, a \<^verbatim>\<open>delete\<close> of a present key and a \<^verbatim>\<open>clear\<close>, the third
  subscriber has no notification at all.
\<close>

theorem later_subscriber_not_notified_counterexample:
  "map fst (cache_subscribers throwing_world) = [3, 4, 5]
   \<and> trace throwing_world = []
   \<and> trace (snd (CacheIt_clear throwing_world)) = [CacheHandlerCalled 3 4, CacheHandlerCalled 4 5]
   \<and> trace (run_mutations [Set ''j'' (JNum 1) None, Delete ''k'', Clear] throwing_world)
       = [CacheHandlerCalled 3 4, CacheHandlerCalled 4 5,
          CacheHandlerCalled 3 4, CacheHandlerCalled 4 5,
          CacheHandlerCalled 3 4, CacheHandlerCalled 4 5]"
  by (simp add: throwing_world_def one_world_def listener_def thrower_def eval_defs)

text \<open>
  C7, amended.  On every cache, \<^verbatim>\<open>set\<close>, a \<^verbatim>\<open>delete\<close> of a present key and \<^verbatim>\<open>clear\<close> each
  add to the trace exactly one call for each subscriber the pass reaches, in
  subscription order: the subscribers up to and including the first whose handler
  throws; \<^verbatim>\<open>clear\<close> does so whatever the cache holds, also nothing.  A \<^verbatim>\<open>delete\<close> of an
  absent key returns false and leaves the world as it is.  A run of calls adds one
  such round per mutating call.  When no handler throws the pass reaches every
  subscriber, so each subscriber gets exactly one notification per mutating call,
  \<open>N\<close> for \<open>N\<close> calls, and the calls return normally.
\<close>

theorem one_notification_per_mutating_call:
  "trace (snd (CacheIt_set key v ttl w))
     = trace w @ map cache_event_of (cache_reached (cache_subscribers w))
   \<and> (CacheIt_has k w \<longrightarrow>
        trace (snd (CacheIt_delete k w))
          = trace w @ map cache_event_of (cache_reached (cache_subscribers w)))
   \<and> (\<not> CacheIt_has k' w \<longrightarrow> CacheIt_delete k' w = (Inr False, w))
   \<and> trace (snd (CacheIt_clear w))
       = trace w @ map cache_event_of (cache_reached (cache_subscribers w))
   \<and> trace (run_mutations ms w)
       = trace w @ concat (replicate (mutating_calls ms w)
                             (map cache_event_of (cache_reached (cache_subscribers w))))
   \<and> ((\<forall>p\<in>set (cache_subscribers w). \<not> cb_throws (snd p)) \<longrightarrow>
        cache_reached (cache_subscribers w) = cache_subscribers w
        \<and> fst (CacheIt_set key v ttl w) = Inr (length (slots w))
        \<and> (CacheIt_has k w \<longrightarrow> fst (CacheIt_delete k w) = Inr True)
        \<and> fst (CacheIt_clear w) = Inr ())"
  using run_mutations_trace [of ms w]
  by (simp add: set_eq delete_eq cache_clear_eq cache_reached_all cache_pass_result_all
        CacheIt_has_def)

theorem one_notification_per_mutating_call_witness:
  "map (cb_throws \<circ> snd) (cache_subscribers watched_cache) = [False, False]
   \<and> CacheIt_has ''a'' watched_cache
   \<and> \<not> CacheIt_has ''b'' watched_cache
   \<and> fst (CacheIt_set ''c'' (JNum 0) None watched_cache) = Inr 1
   \<and> fst (CacheIt_delete ''a'' watched_cache) = Inr True
   \<and> trace (snd (CacheIt_delete ''a'' watched_cache))
       = trace watched_cache @ [CacheHandlerCalled 0 1, CacheHandlerCalled 1 2]
   \<and> CacheIt_delete ''b'' watched_cache = (Inr False, watched_cache)
   \<and> fst (CacheIt_clear watched_cache) = Inr ()
   \<and> trace (run_mutations [Set ''c'' (JNum 0) None, Delete ''b'', Delete ''a'', Clear, Clear]
              watched_cache)
       = trace watched_cache @ concat (replicate 4 [CacheHandlerCalled 0 1, CacheHandlerCalled 1 2])"
proof -
  have h0: "map (cb_throws \<circ> snd) (cache_subscribers watched_cache) = [False, False]"
    by (simp add: watched_cache_def watched_world_def eval_defs)
  have h1: "\<forall>p\<in>set (cache_subscribers watched_cache). \<not> cb_throws (snd p)"
    by (simp add: watched_cache_def watched_world_def eval_defs)
  have h2: "CacheIt_has ''a'' watched_cache"
    by (simp add: watched_cache_def watched_world_def CacheIt_has_def eval_defs)
  have h3: "\<not> CacheIt_has ''b'' watched_cache"
    by (simp add: watched_cache_def watched_world_def CacheIt_has_def eval_defs)
  have len: "length (slots watched_cache) = 1"
    by (simp add: watched_cache_def watched_world_def eval_defs)
  have subs: "map cache_event_of (cache_subscribers watched_cache)
                = [CacheHandlerCalled 0 1, CacheHandlerCalled 1 2]"
    by (simp add: watched_cache_def watched_world_def cache_event_of_def eval_defs)
  have n: "mutating_calls [Set ''c'' (JNum 0) None, Delete ''b'', Delete ''a'', Clear, Clear]
             watched_cache = 4"
    by (simp add: watched_cache_def watched_world_def CacheIt_has_def eval_defs)
  note T = one_notification_per_mutating_call [where w = watched_cache and key = "''c''"
      and v = "JNum 0" and ttl = None and k = "''a''" and k' = "''b''"
      and ms = "[Set ''c'' (JNum 0) None, Delete ''b'', Delete ''a'', Clear, Clear]"]
  have all: "cache_reached (cache_subscribers watched_cache) = cache_subscribers watched_cache"
    "fst (CacheIt_set ''c'' (JNum 0) None watched_cache) = Inr 1"
    "fst (CacheIt_delete ''a'' watched_cache) = Inr True"
    "fst (CacheIt_clear watched_cache) = Inr ()"
    using T h1 h2 len by simp_all
  have del: "trace (snd (CacheIt_delete ''a'' watched_cache))
          = trace watched_cache @ [CacheHandlerCalled 0 1, CacheHandlerCalled 1 2]"
    using T h2 all(1) subs by simp
  have nodel: "CacheIt_delete ''b'' watched_cache = (Inr False, watched_cache)"
    using T h3 by blast
  have run: "trace (run_mutations [Set ''c'' (JNum 0) None, Delete ''b'', Delete ''a'', Clear, Clear]
              watched_cache)
       = trace watched_cache @ concat (replicate 4 [CacheHandlerCalled 0 1, CacheHandlerCalled 1 2])"
    using T [unfolded all(1) subs n] by blast
  show ?thesis using h0 h2 h3 all(2,3,4) del nodel run by blast
qed

text \<open>
  C8.  Start from a world where no symbol is registered twice.  A first \<^verbatim>\<open>set\<close> of
  a key makes the slot \<open>s1\<close>; after any calls, a second \<^verbatim>\<open>set\<close> of the same key makes
  the slot \<open>s2\<close>, and \<open>s1 < s2\<close>: two distinct instances, each returned by its call
  unless a handler of the cache threw.  The key now gives \<open>s2\<close>.  The second \<^verbatim>\<open>set\<close>
  leaves the first slot in the store as it was, subscribers included, calls no
  handler of any slot (no completion), and the new slot has no subscribers.  After
  any further calls, a subscription that is live on the first slot gets no call from
  an \<^verbatim>\<open>update\<close>, a \<^verbatim>\<open>clear\<close>, an \<^verbatim>\<open>unsubscribeAll\<close> or the expiry timer of the second
  slot.
\<close>

theorem set_twice_gives_two_slots:
  fixes w0 :: world and key :: string and v1 v2 :: jsval and ttl1 ttl2 :: "nat option"
    and cs cs' :: "call list"
  defines "s1 \<equiv> length (slots w0)"
  defines "w1 \<equiv> snd (CacheIt_set key v1 ttl1 w0)"
  defines "w \<equiv> run cs w1"
  defines "s2 \<equiv> length (slots w)"
  defines "w2 \<equiv> snd (CacheIt_set key v2 ttl2 w)"
  defines "u \<equiv> run cs' w2"
  assumes uniq: "unique_tokens w0"
    and live: "(tok, h) \<in> set (subscribers (slots u ! s1))"
  shows
    "s1 < s2
     \<and> (fst (CacheIt_set key v1 ttl1 w0) = Inr s1 \<or> isl (fst (CacheIt_set key v1 ttl1 w0)))
     \<and> (fst (CacheIt_set key v2 ttl2 w) = Inr s2 \<or> isl (fst (CacheIt_set key v2 ttl2 w)))
     \<and> CacheIt_get key w1 = Some s1
     \<and> CacheIt_get key w2 = Some s2
     \<and> slots w2 ! s1 = slots w ! s1
     \<and> subscribers (slots w2 ! s2) = []
     \<and> filter is_slot_event (trace w2) = filter is_slot_event (trace w)
     \<and> filter (for_token tok) (trace (snd (CacheValue_update s2 x u)))
         = filter (for_token tok) (trace u)
     \<and> filter (for_token tok) (trace (snd (CacheValue_clear s2 u)))
         = filter (for_token tok) (trace u)
     \<and> filter (for_token tok) (trace (snd (CacheValue_unsubscribeAll s2 u)))
         = filter (for_token tok) (trace u)
     \<and> filter (for_token tok) (trace (fire (dl, s2) u))
         = filter (for_token tok) (trace u)"
proof -
  have l1: "s1 < length (slots w1)" by (simp add: s1_def w1_def set_slots)
  have "length (slots w1) \<le> length (slots w)" unfolding w_def by (rule run_slots)
  with l1 have lt: "s1 < s2" by (simp add: s2_def)
  have l2: "s2 < length (slots w2)" by (simp add: s2_def w2_def set_slots)
  have "length (slots w2) \<le> length (slots u)" unfolding u_def by (rule run_slots)
  with l2 have l3: "s2 < length (slots u)" by simp
  with lt have l4: "s1 < length (slots u)" by simp
  have "unique_tokens w1" using uniq exec_unique [of w0 "Cache_set key v1 ttl1"]
    by (simp add: w1_def)
  then have "unique_tokens w" unfolding w_def by (rule run_unique)
  then have "unique_tokens w2" using exec_unique [of w "Cache_set key v2 ttl2"]
    by (simp add: w2_def)
  then have uu: "unique_tokens u" unfolding u_def by (rule run_unique)
  have ne: "s1 \<noteq> s2" using lt by simp
  from disjoint_slots [OF uu ne l4 l3] live
  have no: "tok \<notin> fst ` set (subscribers (slots u ! s2))" by force
  have old: "slots w2 ! s1 = slots w ! s1"
    using lt by (simp add: w2_def set_slots s2_def nth_append)
  have new: "subscribers (slots w2 ! s2) = []"
    by (simp add: w2_def set_slots s2_def)
  show ?thesis
    using lt set_slots(4) [of key v1 ttl1 w0] set_slots(4) [of key v2 ttl2 w]
      set_slots(2) [of key v1 ttl1 w0] set_slots(2) [of key v2 ttl2 w]
      set_slots(3) [of key v2 ttl2 w] old new
      update_tokens [OF no] clear_tokens [OF no] unsubscribeAll_tokens [OF no]
      fire_slot_tokens [OF no]
    by (simp add: s1_def s2_def w1_def w2_def)
qed

theorem set_twice_gives_two_slots_witness:
  "unique_tokens new_world
   \<and> (0, listener 1) \<in> set (subscribers (slots replaced_world ! 0))
   \<and> (1, listener 2) \<in> set (subscribers (slots replaced_world ! 1))
   \<and> CacheIt_get ''k'' replaced_world = Some 1
   \<and> filter (for_token 0) (trace replaced_world) = []
   \<and> filter (for_token 0) (trace (snd (CacheValue_update 1 (JNum 3) replaced_world))) = []
   \<and> filter (for_token 0) (trace (snd (CacheValue_clear 1 replaced_world))) = []
   \<and> filter (for_token 0) (trace (snd (CacheValue_unsubscribeAll 1 replaced_world))) = []
   \<and> filter (for_token 0) (trace (fire (5, 1) replaced_world)) = []
   \<and> trace (snd (CacheValue_update 1 (JNum 3) replaced_world)) = [NextCalled 1 2 1]"
proof -
  have f: "slots replaced_world =
      [\<lparr>current = JNum 1, previous = Undefined, subscribers = [(0, listener 1)]\<rparr>,
       \<lparr>current = JNum 2, previous = Undefined, subscribers = [(1, listener 2)]\<rparr>]"
    "trace replaced_world = []" "cache replaced_world = [(''k'', 1)]"
    by (simp_all add: replaced_world_def run_def eval_defs)
  have h1: "unique_tokens new_world" by (rule new_world_unique)
  have w1: "length (slots new_world) = 0" by (simp add: new_world_def)
  have w: "length (slots (run [Value_subscribe 0 (listener 1)]
             (snd (CacheIt_set ''k'' (JNum 1) None new_world)))) = 1"
    by (simp add: run_def eval_defs)
  have h2: "(0, listener 1) \<in> set (subscribers (slots replaced_world ! 0))" by (simp add: f)
  note T = set_twice_gives_two_slots [OF h1, where key = "''k''" and ?v1.0 = "JNum 1"
      and ?ttl1.0 = None and cs = "[Value_subscribe 0 (listener 1)]" and ?v2.0 = "JNum 2"
      and ?ttl2.0 = "Some 5" and cs' = "[Value_subscribe 1 (listener 2)]"
      and tok = 0 and h = "listener 1" and x = "JNum 3" and dl = 5,
      folded replaced_world_def, unfolded w1 w, OF h2]
  have own: "trace (snd (CacheValue_update 1 (JNum 3) replaced_world)) = [NextCalled 1 2 1]"
    by (simp add: update_eq f Let_def pass_events_def reached_def throwing_def event_of_def
          handler_of_def listener_def stored_def)
  show ?thesis using T h1 h2 own by (simp add: f CacheIt_get_def)
qed



text \<open>
  C10.  \<^verbatim>\<open>unwrapCurrent\<close> and \<^verbatim>\<open>unwrapPrevious\<close>, in both call shapes and on every world,
  change nothing but the trace: the store, every slot (current, previous and
  subscribers), the cache, its subscribers, the timers and the clock are what they
  were.  The calls they add to the trace are those of \<^verbatim>\<open>onPresent\<close> and \<^verbatim>\<open>onAbsent\<close>, no
  notification of a subscriber; the no-argument form adds nothing at all.
\<close>

theorem unwrap_changes_nothing:
  "(snd (CacheValue_unwrapCurrent s hs w))\<lparr>trace := trace w\<rparr> = w
   \<and> (snd (CacheValue_unwrapPrevious s hs w))\<lparr>trace := trace w\<rparr> = w
   \<and> filter is_notification (trace (snd (CacheValue_unwrapCurrent s hs w)))
       = filter is_notification (trace w)
   \<and> filter is_notification (trace (snd (CacheValue_unwrapPrevious s hs w)))
       = filter is_notification (trace w)
   \<and> snd (CacheValue_unwrapCurrent s None w) = w
   \<and> snd (CacheValue_unwrapPrevious s None w) = w"
  by (auto simp: CacheValue_unwrapCurrent_def CacheValue_unwrapPrevious_def slot_at_def
        optional_call_eq split: option.splits prod.splits sum.splits if_splits)

end
